theory Spec2Isabelle
  imports Main
begin

section \<open>JavaScript values and errors\<close>

text \<open>
  The values that travel through the library: what \<^verbatim>\<open>JSON.parse\<close> returns, what a
  property read returns (\<open>JUndefined\<close> for a missing property) and what callers put into
  a parameter object. Numbers are the integers (request identifiers and small counters);
  strings are character lists. Functions are not values of this type, so members that an
  object only inherits from its prototype read as \<open>JUndefined\<close>.
\<close>

datatype jsval =
    JUndefined
  | JNull
  | JBool bool
  | JNum int
  | JStr string
  | JArr "jsval list"
  | JObj "(string \<times> jsval) list"

text \<open>The errors the library throws or passes on, one constructor per message or class.\<close>

datatype js_error =
    WsNotOpen       \<comment> \<open>\<^verbatim>\<open>new Error('WebSocket is not open')\<close>\<close>
  | ConnFailed      \<comment> \<open>\<^verbatim>\<open>new Error('WebSocket connection failed')\<close>\<close>
  | ConnTimedOut    \<comment> \<open>\<^verbatim>\<open>new Error('WebSocket connection timed out')\<close>\<close>
  | SyntaxError     \<comment> \<open>thrown by \<^verbatim>\<open>JSON.parse\<close>\<close>
  | TypeError       \<comment> \<open>a property read on \<^verbatim>\<open>undefined\<close> or \<^verbatim>\<open>null\<close>, a call of a non-function\<close>

text \<open>A promise is pending until the first call of its \<^verbatim>\<open>resolve\<close> or \<^verbatim>\<open>reject\<close>.\<close>

datatype 'a promise = Pending | Resolved 'a | Rejected js_error

definition settle :: "'a promise \<Rightarrow> 'a promise \<Rightarrow> 'a promise" where
  "settle outcome p = (case p of Pending \<Rightarrow> outcome | _ \<Rightarrow> p)"

section \<open>The transport: \<^verbatim>\<open>createWebSocketClient\<close> (src/lib/websocket.js)\<close>

text \<open>
  The client as the session uses it: \<^verbatim>\<open>connect\<close>, \<^verbatim>\<open>send\<close>, \<^verbatim>\<open>close\<close> and
  \<^verbatim>\<open>on\<close>, with \<^verbatim>\<open>off\<close> and \<^verbatim>\<open>isConnected\<close> of the revision that has them. Sockets,
  calls of \<^verbatim>\<open>connect\<close>, timers and function objects are named by natural numbers.
\<close>

datatype ready_state = CONNECTING | OPEN | CLOSING | CLOSED

text \<open>
  The functions a socket can have as listeners. \<open>OnOpen c\<close> and \<open>OnError c\<close> are the
  closures of the \<open>c\<close>-th call of \<^verbatim>\<open>connect\<close>: they read and write that call's
  \<^verbatim>\<open>connected\<close> flag and settle that call's promise. \<open>Noop\<close> is \<^verbatim>\<open>() => {}\<close>.
\<close>

datatype sock_callback = OnOpen nat | OnError nat | OnClose | OnMessage | Noop

text \<open>
  An \<^verbatim>\<open>EventTarget\<close> keeps (event type, function) pairs and compares functions by
  identity. Every evaluation of a function expression makes a new function object, so a
  listener is stored with the reference of its function object.
\<close>

type_synonym 'f listeners = "(string \<times> nat \<times> 'f) list"

definition addEventListener :: "string \<Rightarrow> nat \<Rightarrow> 'f \<Rightarrow> 'f listeners \<Rightarrow> 'f listeners" where
  "addEventListener ty r f ls =
     (if \<exists>l \<in> set ls. fst l = ty \<and> fst (snd l) = r then ls else ls @ [(ty, r, f)])"

definition removeEventListener :: "string \<Rightarrow> nat \<Rightarrow> 'f listeners \<Rightarrow> 'f listeners" where
  "removeEventListener ty r ls = filter (\<lambda>l. \<not> (fst l = ty \<and> fst (snd l) = r)) ls"

definition listeners_for :: "string \<Rightarrow> 'f listeners \<Rightarrow> 'f list" where
  "listeners_for ty ls = map (\<lambda>l. snd (snd l)) (filter (\<lambda>l. fst l = ty) ls)"

record websocket =
  url :: string
  protocols :: "string list"
  readyState :: ready_state
  sock_listeners :: "sock_callback listeners"

text \<open>The locals of one call of \<^verbatim>\<open>connect\<close>: the flag and the promise it returned.\<close>

record conn_call =
  connected :: bool
  outcome :: "unit promise"

text \<open>
  What the client does to the outside, in order: data handed to a socket, a socket closed,
  a connect promise resolved or rejected.
\<close>

datatype 'o action =
    SocketSend nat 'o
  | SocketClose nat
  | ConnResolve nat
  | ConnReject nat js_error

text \<open>
  The closure of \<^verbatim>\<open>createWebSocketClient\<close>: the variables \<^verbatim>\<open>socket\<close>,
  \<^verbatim>\<open>events\<close> and \<^verbatim>\<open>timeoutId\<close>, with the heap they point into: every socket
  object made so far (\<open>socket\<close> holds an index into it), the armed timers as
  (timer, call, delay), and the locals of every call of \<^verbatim>\<open>connect\<close>.
  \<open>'h\<close> is the type of the handlers that users register, \<open>'o\<close> the type of outbound data.
\<close>

record ('h, 'o) ws_client =
  socket :: "nat option"
  events :: "'h listeners"
  timeoutId :: "nat option"
  sockets :: "websocket list"
  timers :: "(nat \<times> nat \<times> nat) list"
  calls :: "conn_call list"
  next_timer :: nat
  next_fn :: nat
  trace :: "'o action list"

definition createWebSocketClient :: "('h, 'o) ws_client" where
  "createWebSocketClient =
     \<lparr>socket = None, events = [], timeoutId = None, sockets = [], timers = [], calls = [],
      next_timer = 0, next_fn = 0, trace = []\<rparr>"

definition update_socket :: "nat \<Rightarrow> (websocket \<Rightarrow> websocket) \<Rightarrow> ('h, 'o) ws_client \<Rightarrow> ('h, 'o) ws_client" where
  "update_socket i f t =
     (if i < length (sockets t) then t\<lparr>sockets := (sockets t)[i := f (sockets t ! i)]\<rparr> else t)"

definition update_call :: "nat \<Rightarrow> (conn_call \<Rightarrow> conn_call) \<Rightarrow> ('h, 'o) ws_client \<Rightarrow> ('h, 'o) ws_client" where
  "update_call c f t =
     (if c < length (calls t) then t\<lparr>calls := (calls t)[c := f (calls t ! c)]\<rparr> else t)"

text \<open>\<^verbatim>\<open>resolve()\<close> and \<^verbatim>\<open>reject(err)\<close> of the promise of call \<open>c\<close>.\<close>

definition conn_resolve :: "nat \<Rightarrow> ('h, 'o) ws_client \<Rightarrow> ('h, 'o) ws_client" where
  "conn_resolve c t =
     (update_call c (\<lambda>k. k\<lparr>outcome := settle (Resolved ()) (outcome k)\<rparr>) t)
       \<lparr>trace := trace t @ [ConnResolve c]\<rparr>"

definition conn_reject :: "nat \<Rightarrow> js_error \<Rightarrow> ('h, 'o) ws_client \<Rightarrow> ('h, 'o) ws_client" where
  "conn_reject c e t =
     (update_call c (\<lambda>k. k\<lparr>outcome := settle (Rejected e) (outcome k)\<rparr>) t)
       \<lparr>trace := trace t @ [ConnReject c e]\<rparr>"

definition clearTimeout :: "nat option \<Rightarrow> ('h, 'o) ws_client \<Rightarrow> ('h, 'o) ws_client" where
  "clearTimeout tid t =
     (case tid of None \<Rightarrow> t | Some n \<Rightarrow> t\<lparr>timers := filter (\<lambda>x. fst x \<noteq> n) (timers t)\<rparr>)"

definition default_timeout :: nat where
  "default_timeout = 5000"

text \<open>\<^verbatim>\<open>send(data)\<close>: passes the data to an open socket, throws otherwise.\<close>

definition send :: "'o \<Rightarrow> ('h, 'o) ws_client \<Rightarrow> js_error + ('h, 'o) ws_client" where
  "send d t =
     (case socket t of
        None \<Rightarrow> Inl WsNotOpen
      | Some i \<Rightarrow>
          if i < length (sockets t) \<and> readyState (sockets t ! i) = OPEN
          then Inr (t\<lparr>trace := trace t @ [SocketSend i d]\<rparr>)
          else Inl WsNotOpen)"

text \<open>
  \<^verbatim>\<open>on(event, handler)\<close> registers the new function \<^verbatim>\<open>(e) => handler(e)\<close>;
  \<^verbatim>\<open>off(event, handler)\<close> asks to remove another new function \<^verbatim>\<open>(e) => handler(e)\<close>.
\<close>

definition on :: "string \<Rightarrow> 'h \<Rightarrow> ('h, 'o) ws_client \<Rightarrow> ('h, 'o) ws_client" where
  "on ev h t = t\<lparr>events := addEventListener ev (next_fn t) h (events t), next_fn := Suc (next_fn t)\<rparr>"

definition off :: "string \<Rightarrow> 'h \<Rightarrow> ('h, 'o) ws_client \<Rightarrow> ('h, 'o) ws_client" where
  "off ev h t = t\<lparr>events := removeEventListener ev (next_fn t) (events t), next_fn := Suc (next_fn t)\<rparr>"

definition isConnected :: "('h, 'o) ws_client \<Rightarrow> bool" where
  "isConnected t =
     (case socket t of
        None \<Rightarrow> False
      | Some i \<Rightarrow> i < length (sockets t) \<and> readyState (sockets t ! i) = OPEN)"

subsection \<open>Socket events\<close>

text \<open>
  What a socket reports. A message carries \<^verbatim>\<open>message.data\<close>, of type \<open>'i\<close>.
  The platform sets \<^verbatim>\<open>readyState\<close> before it calls the listeners.
\<close>

datatype 'i sock_event = Open | Error | Close | Message 'i

fun event_type :: "'i sock_event \<Rightarrow> string" where
  "event_type Open = ''open''"
| "event_type Error = ''error''"
| "event_type Close = ''close''"
| "event_type (Message d) = ''message''"

fun next_ready :: "'i sock_event \<Rightarrow> ready_state \<Rightarrow> ready_state" where
  "next_ready Open r = OPEN"
| "next_ready Close r = CLOSED"
| "next_ready Error r = r"
| "next_ready (Message d) r = r"

text \<open>
  The handlers registered with \<^verbatim>\<open>on\<close> belong to the user of the client and work on the
  user's state \<open>'s\<close>, of which the client is a part: \<open>run h e\<close> is the call \<^verbatim>\<open>handler(e)\<close>,
  \<open>get\<close> reads the client out of the user's state and \<open>upd\<close> changes it there.
  \<^verbatim>\<open>events.dispatchEvent(e)\<close> calls the listeners of the event's type in the order of
  their registration.
\<close>

definition dispatchEvent ::
  "('h \<Rightarrow> 'i sock_event \<Rightarrow> 's \<Rightarrow> 's) \<Rightarrow> ('s \<Rightarrow> ('h, 'o) ws_client) \<Rightarrow> 'i sock_event \<Rightarrow> 's \<Rightarrow> 's" where
  "dispatchEvent run get e s =
     fold (\<lambda>h. run h e) (listeners_for (event_type e) (events (get s))) s"

text \<open>The four listeners that \<^verbatim>\<open>connect\<close> attaches to its socket.\<close>

definition onOpen :: "nat \<Rightarrow> ('h, 'o) ws_client \<Rightarrow> ('h, 'o) ws_client" where
  "onOpen c t = update_call c (\<lambda>k. k\<lparr>connected := True\<rparr>) (clearTimeout (timeoutId t) t)"

definition onError :: "nat \<Rightarrow> ('h, 'o) ws_client \<Rightarrow> ('h, 'o) ws_client" where
  "onError c t =
     (if c < length (calls t) \<and> \<not> connected (calls t ! c) then conn_reject c ConnFailed t else t)"

fun run_callback ::
  "('h \<Rightarrow> 'i sock_event \<Rightarrow> 's \<Rightarrow> 's) \<Rightarrow> ('s \<Rightarrow> ('h, 'o) ws_client) \<Rightarrow>
   ((('h, 'o) ws_client \<Rightarrow> ('h, 'o) ws_client) \<Rightarrow> 's \<Rightarrow> 's) \<Rightarrow>
   'i sock_event \<Rightarrow> sock_callback \<Rightarrow> 's \<Rightarrow> 's" where
  "run_callback run get upd e (OnOpen c) s =
     upd (conn_resolve c) (dispatchEvent run get Open (upd (onOpen c) s))"
| "run_callback run get upd e (OnError c) s = dispatchEvent run get Error (upd (onError c) s)"
| "run_callback run get upd e OnClose s = dispatchEvent run get Close s"
| "run_callback run get upd e OnMessage s =
     (case e of Message d \<Rightarrow> dispatchEvent run get (Message d) s | _ \<Rightarrow> s)"
| "run_callback run get upd e Noop s = s"

definition socket_event ::
  "('h \<Rightarrow> 'i sock_event \<Rightarrow> 's \<Rightarrow> 's) \<Rightarrow> ('s \<Rightarrow> ('h, 'o) ws_client) \<Rightarrow>
   ((('h, 'o) ws_client \<Rightarrow> ('h, 'o) ws_client) \<Rightarrow> 's \<Rightarrow> 's) \<Rightarrow>
   nat \<Rightarrow> 'i sock_event \<Rightarrow> 's \<Rightarrow> 's" where
  "socket_event run get upd i e s =
     (if i < length (sockets (get s)) then
        let s1 = upd (update_socket i (\<lambda>k. k\<lparr>readyState := next_ready e (readyState k)\<rparr>)) s
        in fold (run_callback run get upd e)
             (listeners_for (event_type e) (sock_listeners (sockets (get s1) ! i))) s1
      else s)"

subsection \<open>Closing and connecting\<close>

text \<open>
  The platform's \<^verbatim>\<open>WebSocket.close()\<close>, as the built-in \<^verbatim>\<open>WebSocket\<close> of Node has it.
  Closing a socket that is still connecting fails the connection, and the failure is
  reported at once: the \<^verbatim>\<open>'error'\<close> listeners of the socket are called from inside
  \<^verbatim>\<open>close()\<close>, before \<^verbatim>\<open>readyState\<close> becomes \<^verbatim>\<open>CLOSING\<close>. An open socket starts
  closing and calls no listener; a closing or closed socket is left as it is. The
  \<^verbatim>\<open>'close'\<close> event follows later, as an event of the socket.
\<close>

definition socket_close ::
  "('h \<Rightarrow> 'i sock_event \<Rightarrow> 's \<Rightarrow> 's) \<Rightarrow> ('s \<Rightarrow> ('h, 'o) ws_client) \<Rightarrow>
   ((('h, 'o) ws_client \<Rightarrow> ('h, 'o) ws_client) \<Rightarrow> 's \<Rightarrow> 's) \<Rightarrow> nat \<Rightarrow> 's \<Rightarrow> 's" where
  "socket_close run get upd i s =
     (let s1 = upd (\<lambda>t. t\<lparr>trace := trace t @ [SocketClose i]\<rparr>) s;
          s2 = (if i < length (sockets (get s1)) \<and> readyState (sockets (get s1) ! i) = CONNECTING
                then fold (run_callback run get upd Error)
                       (listeners_for ''error'' (sock_listeners (sockets (get s1) ! i))) s1
                else s1)
      in upd (update_socket i
           (\<lambda>k. k\<lparr>readyState := (if readyState k = CLOSED then CLOSED else CLOSING)\<rparr>)) s2)"

text \<open>
  \<^verbatim>\<open>close()\<close>: with a socket, four \<^verbatim>\<open>removeEventListener\<close> calls, each with a function
  object made by the call itself, then \<^verbatim>\<open>socket.close()\<close> and \<^verbatim>\<open>socket = null\<close>.
\<close>

definition close ::
  "('h \<Rightarrow> 'i sock_event \<Rightarrow> 's \<Rightarrow> 's) \<Rightarrow> ('s \<Rightarrow> ('h, 'o) ws_client) \<Rightarrow>
   ((('h, 'o) ws_client \<Rightarrow> ('h, 'o) ws_client) \<Rightarrow> 's \<Rightarrow> 's) \<Rightarrow> 's \<Rightarrow> 's" where
  "close run get upd s =
     (case socket (get s) of
        None \<Rightarrow> s
      | Some i \<Rightarrow>
          let r = next_fn (get s);
              s1 = upd (\<lambda>t. (update_socket i (\<lambda>k. k\<lparr>sock_listeners :=
                     removeEventListener ''message'' (r + 3)
                       (removeEventListener ''close'' (r + 2)
                         (removeEventListener ''error'' (r + 1)
                           (removeEventListener ''open'' r (sock_listeners k))))\<rparr>) t)
                     \<lparr>next_fn := r + 4\<rparr>) s;
              s2 = socket_close run get upd i s1
          in upd (\<lambda>t. t\<lparr>socket := None\<rparr>) s2)"

text \<open>
  \<^verbatim>\<open>connect({ url, timeout = 5000, protocols = [] })\<close>, up to the return of the promise:
  the result is the new state and the number of the call, which names its promise.
\<close>

definition connect ::
  "('h \<Rightarrow> 'i sock_event \<Rightarrow> 's \<Rightarrow> 's) \<Rightarrow> ('s \<Rightarrow> ('h, 'o) ws_client) \<Rightarrow>
   ((('h, 'o) ws_client \<Rightarrow> ('h, 'o) ws_client) \<Rightarrow> 's \<Rightarrow> 's) \<Rightarrow>
   string \<Rightarrow> nat \<Rightarrow> string list \<Rightarrow> 's \<Rightarrow> 's \<times> nat" where
  "connect run get upd u timeout ps s0 =
     (let s = (if socket (get s0) \<noteq> None then close run get upd s0 else s0);
          i = length (sockets (get s));
          c = length (calls (get s));
          r = next_fn (get s);
          n = next_timer (get s);
          sock = \<lparr>url = u, protocols = ps, readyState = CONNECTING,
                  sock_listeners =
                    addEventListener ''message'' (r + 3) OnMessage
                      (addEventListener ''close'' (r + 2) OnClose
                        (addEventListener ''error'' (r + 1) (OnError c)
                          (addEventListener ''open'' r (OnOpen c) [])))\<rparr>
      in (upd (\<lambda>t. t\<lparr>socket := Some i,
            sockets := sockets t @ [sock],
            calls := calls t @ [\<lparr>connected = False, outcome = Pending\<rparr>],
            next_fn := r + 4,
            timeoutId := Some n,
            timers := timers t @ [(n, c, timeout)],
            next_timer := Suc n\<rparr>) s, c))"

text \<open>
  The timer callback of call \<open>c\<close>:
  \<^verbatim>\<open>if (!connected) { close(); reject(new Error('WebSocket connection timed out')); }\<close>
\<close>

definition on_timeout ::
  "('h \<Rightarrow> 'i sock_event \<Rightarrow> 's \<Rightarrow> 's) \<Rightarrow> ('s \<Rightarrow> ('h, 'o) ws_client) \<Rightarrow>
   ((('h, 'o) ws_client \<Rightarrow> ('h, 'o) ws_client) \<Rightarrow> 's \<Rightarrow> 's) \<Rightarrow> nat \<Rightarrow> 's \<Rightarrow> 's" where
  "on_timeout run get upd c s =
     (if c < length (calls (get s)) \<and> \<not> connected (calls (get s) ! c)
      then upd (conn_reject c ConnTimedOut) (close run get upd s) else s)"

text \<open>An armed timer fires: it is no longer armed, and its callback runs.\<close>

definition timer_fire ::
  "('h \<Rightarrow> 'i sock_event \<Rightarrow> 's \<Rightarrow> 's) \<Rightarrow> ('s \<Rightarrow> ('h, 'o) ws_client) \<Rightarrow>
   ((('h, 'o) ws_client \<Rightarrow> ('h, 'o) ws_client) \<Rightarrow> 's \<Rightarrow> 's) \<Rightarrow> nat \<Rightarrow> 's \<Rightarrow> 's" where
  "timer_fire run get upd n s =
     (case map_of (timers (get s)) n of
        None \<Rightarrow> s
      | Some x \<Rightarrow>
          on_timeout run get upd (fst x)
            (upd (\<lambda>t. t\<lparr>timers := filter (\<lambda>y. fst y \<noteq> n) (timers t)\<rparr>) s))"

text \<open>
  A user that only writes down the calls of its handlers: the state is the client and
  the list of calls so far.
\<close>

type_synonym ('h, 'o, 'i) observer = "('h, 'o) ws_client \<times> ('h \<times> 'i sock_event) list"

definition note_call :: "'h \<Rightarrow> 'i sock_event \<Rightarrow> ('h, 'o, 'i) observer \<Rightarrow> ('h, 'o, 'i) observer" where
  "note_call h e s = (fst s, snd s @ [(h, e)])"

definition observed_event :: "nat \<Rightarrow> 'i sock_event \<Rightarrow> ('h, 'o, 'i) observer \<Rightarrow> ('h, 'o, 'i) observer" where
  "observed_event i e s = socket_event note_call fst apfst i e s"

section \<open>Reading JavaScript values\<close>

fun truthy :: "jsval \<Rightarrow> bool" where
  "truthy JUndefined = False"
| "truthy JNull = False"
| "truthy (JBool b) = b"
| "truthy (JNum n) = (n \<noteq> 0)"
| "truthy (JStr s) = (s \<noteq> [])"
| "truthy (JArr xs) = True"
| "truthy (JObj kvs) = True"

text \<open>
  \<^verbatim>\<open>a === b\<close> where \<open>a\<close> was read out of a parsed message: primitives are compared by
  value, arrays and objects by identity, and no array or object inside a freshly parsed
  message is identical to a value that exists elsewhere.
\<close>

fun strict_eq :: "jsval \<Rightarrow> jsval \<Rightarrow> bool" where
  "strict_eq JUndefined JUndefined = True"
| "strict_eq JNull JNull = True"
| "strict_eq (JBool a) (JBool b) = (a = b)"
| "strict_eq (JNum a) (JNum b) = (a = b)"
| "strict_eq (JStr a) (JStr b) = (a = b)"
| "strict_eq a b = False"

text \<open>The decimal numeral of a natural number, as array indices are written as keys.\<close>

fun show_nat :: "nat \<Rightarrow> string" where
  "show_nat n =
     (if n < 10 then [char_of (48 + n)] else show_nat (n div 10) @ [char_of (48 + n mod 10)])"

declare show_nat.simps [simp del]

definition element_at :: "string \<Rightarrow> 'a list \<Rightarrow> 'a option" where
  "element_at k xs =
     (case filter (\<lambda>n. show_nat n = k) [0..<length xs] of [] \<Rightarrow> None | n # _ \<Rightarrow> Some (xs ! n))"

text \<open>
  The property read \<^verbatim>\<open>v[k]\<close> (and \<^verbatim>\<open>v.k\<close>): a \<^verbatim>\<open>TypeError\<close> on \<^verbatim>\<open>undefined\<close> and
  \<^verbatim>\<open>null\<close>, the own property otherwise, \<^verbatim>\<open>undefined\<close> when there is none.
\<close>

fun get :: "jsval \<Rightarrow> string \<Rightarrow> js_error + jsval" where
  "get JUndefined k = Inl TypeError"
| "get JNull k = Inl TypeError"
| "get (JBool b) k = Inr JUndefined"
| "get (JNum n) k = Inr JUndefined"
| "get (JStr s) k =
     Inr (if k = ''length'' then JNum (int (length s))
          else case element_at k s of None \<Rightarrow> JUndefined | Some c \<Rightarrow> JStr [c])"
| "get (JArr xs) k =
     Inr (if k = ''length'' then JNum (int (length xs))
          else case element_at k xs of None \<Rightarrow> JUndefined | Some x \<Rightarrow> x)"
| "get (JObj kvs) k = Inr (case map_of kvs k of None \<Rightarrow> JUndefined | Some x \<Rightarrow> x)"

text \<open>
  \<^verbatim>\<open>event.detail\<close> of a message event: the empty text, a text that \<^verbatim>\<open>JSON.parse\<close>
  rejects, or a text that it parses to a value.
\<close>

datatype payload = Empty | Malformed | Json jsval

fun JSON_parse :: "payload \<Rightarrow> js_error + jsval" where
  "JSON_parse Empty = Inl SyntaxError"
| "JSON_parse Malformed = Inl SyntaxError"
| "JSON_parse (Json v) = Inr v"

section \<open>The session: \<^verbatim>\<open>createThunderSession\<close> (src/lib/thunderSession.js)\<close>

text \<open>
  The session with \<^verbatim>\<open>nextId\<close>, \<^verbatim>\<open>sendRpc\<close>, \<^verbatim>\<open>waitForEvent\<close>, \<^verbatim>\<open>status\<close>,
  \<^verbatim>\<open>getState\<close>, \<^verbatim>\<open>stop\<close>, \<^verbatim>\<open>start\<close> and \<^verbatim>\<open>resume\<close>. Its client is driven
  directly: the session's own \<^verbatim>\<open>connect\<close> (open the client, then send the register
  request), \<^verbatim>\<open>disconnect\<close> and \<^verbatim>\<open>setURL\<close> (an HTTP request) are left out. A promise is
  named by its index in the list of all promises made so far.
\<close>

text \<open>
  The listeners that the session registers for \<^verbatim>\<open>'message'\<close>: the arrow function of
  \<^verbatim>\<open>sendRpc\<close> with its \<^verbatim>\<open>id\<close> and its promise, and \<^verbatim>\<open>handleEvent\<close> of
  \<^verbatim>\<open>waitForEvent\<close> with \<^verbatim>\<open>eventType\<close>, \<^verbatim>\<open>matchParams\<close> and its promise.
\<close>

datatype handler =
    RpcListener int nat
  | HandleEvent string "(string \<times> jsval) list" nat

text \<open>
  The code that is suspended at an \<^verbatim>\<open>await\<close> or attached with \<^verbatim>\<open>then\<close>, each with
  the promise it will settle: the rest of \<^verbatim>\<open>getState\<close> after \<^verbatim>\<open>await status()\<close>,
  the rest of the executors of \<^verbatim>\<open>stop\<close>, \<^verbatim>\<open>start\<close> and \<^verbatim>\<open>resume\<close> after
  \<^verbatim>\<open>await getState()\<close>, and \<^verbatim>\<open>.then(resolve).catch(reject)\<close>.
\<close>

datatype cont =
    GetStateRest nat
  | StopRest nat
  | StartRest nat
  | ResumeRest nat
  | ThenSettle nat

record thunder_session =
  host :: string
  callsign :: string
  messageId :: int
  wsClient :: "(handler, jsval) ws_client"
  promises :: "jsval promise list"
  waiting :: "(nat \<times> cont) list"

definition createThunderSession :: "string \<Rightarrow> string \<Rightarrow> int \<Rightarrow> thunder_session" where
  "createThunderSession h cs jsonRpcId =
     \<lparr>host = h, callsign = cs, messageId = jsonRpcId, wsClient = createWebSocketClient,
      promises = [], waiting = []\<rparr>"

definition nextId :: "thunder_session \<Rightarrow> thunder_session \<times> int" where
  "nextId s = (s\<lparr>messageId := messageId s + 1\<rparr>, messageId s)"

definition new_promise :: "thunder_session \<Rightarrow> thunder_session \<times> nat" where
  "new_promise s = (s\<lparr>promises := promises s @ [Pending]\<rparr>, length (promises s))"

definition settle_promise :: "nat \<Rightarrow> jsval promise \<Rightarrow> thunder_session \<Rightarrow> thunder_session" where
  "settle_promise p r s =
     (if p < length (promises s) then s\<lparr>promises := (promises s)[p := settle r (promises s ! p)]\<rparr>
      else s)"

definition resolve :: "nat \<Rightarrow> jsval \<Rightarrow> thunder_session \<Rightarrow> thunder_session" where
  "resolve p v s = settle_promise p (Resolved v) s"

definition reject :: "nat \<Rightarrow> js_error \<Rightarrow> thunder_session \<Rightarrow> thunder_session" where
  "reject p e s = settle_promise p (Rejected e) s"

definition await :: "nat \<Rightarrow> cont \<Rightarrow> thunder_session \<Rightarrow> thunder_session" where
  "await p k s = s\<lparr>waiting := waiting s @ [(p, k)]\<rparr>"

text \<open>
  \<^verbatim>\<open>sendRpc(method, params)\<close>: an exception of \<^verbatim>\<open>wsClient.send\<close> leaves the executor
  before the listener is registered, and rejects the promise.
\<close>

definition request :: "int \<Rightarrow> string \<Rightarrow> jsval \<Rightarrow> jsval" where
  "request i method params =
     JObj [(''jsonrpc'', JStr ''2.0''), (''id'', JNum i), (''method'', JStr method),
           (''params'', params)]"

definition sendRpc :: "string \<Rightarrow> jsval \<Rightarrow> thunder_session \<Rightarrow> thunder_session \<times> nat" where
  "sendRpc method params s0 =
     (let (s1, p) = new_promise s0;
          (s2, i) = nextId s1;
          payload = request i method params
      in case send payload (wsClient s2) of
           Inl e \<Rightarrow> (reject p e s2, p)
         | Inr t \<Rightarrow> (s2\<lparr>wsClient := on ''message'' (RpcListener i p) t\<rparr>, p))"

text \<open>What the listener of \<^verbatim>\<open>sendRpc\<close> does with \<^verbatim>\<open>event.detail\<close>.\<close>

datatype verdict = Ignore | DoResolve jsval | DoReject js_error

definition rpc_verdict :: "int \<Rightarrow> payload \<Rightarrow> verdict" where
  "rpc_verdict i d =
     (case d of
        Empty \<Rightarrow> Ignore
      | _ \<Rightarrow>
        (case JSON_parse d of
           Inl e \<Rightarrow> DoReject e
         | Inr response \<Rightarrow>
           (case get response ''id'' of
              Inl e \<Rightarrow> DoReject e
            | Inr v \<Rightarrow>
                if strict_eq v (JNum i)
                then (case get response ''result'' of
                        Inl e \<Rightarrow> DoReject e
                      | Inr r \<Rightarrow> DoResolve (if truthy r then r else response))
                else Ignore)))"

text \<open>
  \<^verbatim>\<open>Object.entries(matchParams).every(([key, value]) => response.params.params[key] === value)\<close>
\<close>

fun every_match :: "(string \<times> jsval) list \<Rightarrow> jsval \<Rightarrow> js_error + bool" where
  "every_match [] response = Inr True"
| "every_match (kv # rest) response =
     (case get response ''params'' of
        Inl e \<Rightarrow> Inl e
      | Inr ps \<Rightarrow>
        (case get ps ''params'' of
           Inl e \<Rightarrow> Inl e
         | Inr pps \<Rightarrow>
           (case get pps (fst kv) of
              Inl e \<Rightarrow> Inl e
            | Inr v \<Rightarrow> if strict_eq v (snd kv) then every_match rest response else Inr False)))"

text \<open>
  The two nested conditions of \<^verbatim>\<open>handleEvent\<close>:
  \<^verbatim>\<open>response.method === 'client.Controller.events.all' || response.params.event === eventType\<close>
  and then the comparison of the parameters.
\<close>

definition event_matches :: "string \<Rightarrow> (string \<times> jsval) list \<Rightarrow> jsval \<Rightarrow> js_error + bool" where
  "event_matches eventType matchParams response =
     (case get response ''method'' of
        Inl e \<Rightarrow> Inl e
      | Inr m \<Rightarrow>
          if strict_eq m (JStr ''client.Controller.events.all'')
          then every_match matchParams response
          else (case get response ''params'' of
                  Inl e \<Rightarrow> Inl e
                | Inr ps \<Rightarrow>
                  (case get ps ''event'' of
                     Inl e \<Rightarrow> Inl e
                   | Inr ev \<Rightarrow>
                       if strict_eq ev (JStr eventType) then every_match matchParams response
                       else Inr False)))"

definition ws_off :: "handler \<Rightarrow> thunder_session \<Rightarrow> thunder_session" where
  "ws_off h s = s\<lparr>wsClient := off ''message'' h (wsClient s)\<rparr>"

text \<open>
  \<^verbatim>\<open>handleEvent(event)\<close>: on a match \<^verbatim>\<open>wsClient.off\<close> and \<^verbatim>\<open>resolve(response)\<close>, on
  an exception \<^verbatim>\<open>wsClient.off\<close> alone.
\<close>

definition handleEvent :: "string \<Rightarrow> (string \<times> jsval) list \<Rightarrow> nat \<Rightarrow> payload \<Rightarrow> thunder_session \<Rightarrow> thunder_session" where
  "handleEvent eventType matchParams p d s =
     (case d of
        Empty \<Rightarrow> s
      | _ \<Rightarrow>
        (case JSON_parse d of
           Inl e \<Rightarrow> ws_off (HandleEvent eventType matchParams p) s
         | Inr response \<Rightarrow>
           (case event_matches eventType matchParams response of
              Inl e \<Rightarrow> ws_off (HandleEvent eventType matchParams p) s
            | Inr matched \<Rightarrow>
                if matched
                then resolve p response (ws_off (HandleEvent eventType matchParams p) s)
                else s)))"

text \<open>
  The call \<^verbatim>\<open>handler(e)\<close> of a registered listener. Only a message event has a
  \<^verbatim>\<open>detail\<close>; with any other event both listeners return at once.
\<close>

fun run_handler :: "handler \<Rightarrow> payload sock_event \<Rightarrow> thunder_session \<Rightarrow> thunder_session" where
  "run_handler (RpcListener i p) (Message d) s =
     (case rpc_verdict i d of
        Ignore \<Rightarrow> s
      | DoResolve v \<Rightarrow> resolve p v s
      | DoReject e \<Rightarrow> reject p e s)"
| "run_handler (HandleEvent eventType matchParams p) (Message d) s =
     handleEvent eventType matchParams p d s"
| "run_handler h e s = s"

definition waitForEvent :: "string \<Rightarrow> (string \<times> jsval) list \<Rightarrow> thunder_session \<Rightarrow> thunder_session \<times> nat" where
  "waitForEvent eventType matchParams s0 =
     (let (s1, p) = new_promise s0
      in (s1\<lparr>wsClient := on ''message'' (HandleEvent eventType matchParams p) (wsClient s1)\<rparr>, p))"

definition status :: "thunder_session \<Rightarrow> thunder_session \<times> nat" where
  "status s = sendRpc ''Controller.1.status'' (JObj []) s"

text \<open>
  \<^verbatim>\<open>result.filter((instance) => instance.callsign === callsign)[0].state\<close>: a
  \<^verbatim>\<open>TypeError\<close> when \<^verbatim>\<open>result\<close> has no \<^verbatim>\<open>filter\<close> method, when an entry is
  \<^verbatim>\<open>null\<close>, and when no entry is left.
\<close>

fun filter_callsign :: "string \<Rightarrow> jsval list \<Rightarrow> js_error + jsval list" where
  "filter_callsign cs [] = Inr []"
| "filter_callsign cs (instance # rest) =
     (case get instance ''callsign'' of
        Inl e \<Rightarrow> Inl e
      | Inr v \<Rightarrow>
        (case filter_callsign cs rest of
           Inl e \<Rightarrow> Inl e
         | Inr found \<Rightarrow> Inr (if strict_eq v (JStr cs) then instance # found else found)))"

definition state_of :: "string \<Rightarrow> jsval \<Rightarrow> js_error + jsval" where
  "state_of cs result =
     (case result of
        JArr xs \<Rightarrow>
          (case filter_callsign cs xs of
             Inl e \<Rightarrow> Inl e
           | Inr [] \<Rightarrow> Inl TypeError
           | Inr (instance # _) \<Rightarrow> get instance ''state'')
      | _ \<Rightarrow> Inl TypeError)"

text \<open>
  \<^verbatim>\<open>getState()\<close> up to its \<^verbatim>\<open>await\<close>: the promise of the async function, the call
  of \<^verbatim>\<open>status()\<close>, and the rest of the body suspended on the promise of \<^verbatim>\<open>status()\<close>.
\<close>

definition getState :: "thunder_session \<Rightarrow> thunder_session \<times> nat" where
  "getState s0 =
     (let (s1, pg) = new_promise s0;
          (s2, ps) = status s1
      in (await ps (GetStateRest pg) s2, pg))"

text \<open>
  \<^verbatim>\<open>stop()\<close>, \<^verbatim>\<open>start()\<close> and \<^verbatim>\<open>resume()\<close> up to the \<^verbatim>\<open>await getState()\<close> of
  their executors.
\<close>

definition stop :: "thunder_session \<Rightarrow> thunder_session \<times> nat" where
  "stop s0 =
     (let (s1, po) = new_promise s0;
          (s2, pg) = getState s1
      in (await pg (StopRest po) s2, po))"

definition start :: "thunder_session \<Rightarrow> thunder_session \<times> nat" where
  "start s0 =
     (let (s1, po) = new_promise s0;
          (s2, pg) = getState s1
      in (await pg (StartRest po) s2, po))"

definition resume :: "thunder_session \<Rightarrow> thunder_session \<times> nat" where
  "resume s0 =
     (let (s1, po) = new_promise s0;
          (s2, pg) = getState s1
      in (await pg (ResumeRest po) s2, po))"

text \<open>
  The rest of an executor once the state is known: resolve at once in the states that the
  condition names, otherwise \<^verbatim>\<open>waitForEvent(..).then(resolve).catch(reject)\<close> followed by
  \<^verbatim>\<open>await sendRpc(..)\<close>, after which the executor ends.
\<close>

definition transition ::
  "string \<Rightarrow> (string \<times> jsval) list \<Rightarrow> string \<Rightarrow> nat \<Rightarrow> thunder_session \<Rightarrow> thunder_session" where
  "transition eventType matchParams method po s0 =
     (let (s1, pw) = waitForEvent eventType matchParams s0;
          s2 = await pw (ThenSettle po) s1;
          (s3, pr) = sendRpc method (JObj [(''callsign'', JStr (callsign s2))]) s2
      in s3)"

text \<open>
  A suspended piece of code runs with the outcome of the promise it waited for. An
  \<^verbatim>\<open>await\<close> of a rejected promise throws inside the async function: \<^verbatim>\<open>getState\<close>
  rejects its promise, an executor ends with the promise of its operation untouched.
\<close>

fun run_cont :: "cont \<Rightarrow> jsval promise \<Rightarrow> thunder_session \<Rightarrow> thunder_session" where
  "run_cont (GetStateRest pg) (Resolved result) s =
     (case state_of (callsign s) result of
        Inl e \<Rightarrow> reject pg e s
      | Inr v \<Rightarrow> resolve pg v s)"
| "run_cont (GetStateRest pg) (Rejected e) s = reject pg e s"
| "run_cont (StopRest po) (Resolved state) s =
     (if strict_eq state (JStr ''Deactivated'') then resolve po JUndefined s
      else transition ''statechange'' [(''state'', JStr ''deactivated'')] ''Controller.1.deactivate'' po s)"
| "run_cont (StartRest po) (Resolved state) s =
     (if strict_eq state (JStr ''Activated'') \<or> strict_eq state (JStr ''Resumed'')
      then resolve po JUndefined s
      else transition ''statechange'' [(''state'', JStr ''activated'')] ''Controller.1.activate'' po s)"
| "run_cont (ResumeRest po) (Resolved state) s =
     (if strict_eq state (JStr ''Activated'') \<or> strict_eq state (JStr ''Resumed'')
      then resolve po JUndefined s
      else transition ''statechange'' [(''suspended'', JBool False)] ''Controller.1.resume'' po s)"
| "run_cont (ThenSettle po) (Resolved v) s = resolve po v s"
| "run_cont (ThenSettle po) (Rejected e) s = reject po e s"
| "run_cont k r s = s"

subsection \<open>Running the suspended code\<close>

text \<open>
  After the listeners of an event have returned, the suspended code whose promise is
  settled runs, the earliest registered first, until none is left that can run.
\<close>

fun take_ready ::
  "jsval promise list \<Rightarrow> (nat \<times> cont) list \<Rightarrow> (cont \<times> jsval promise \<times> (nat \<times> cont) list) option" where
  "take_ready ps [] = None"
| "take_ready ps (w # ws) =
     (if fst w < length ps \<and> ps ! fst w \<noteq> Pending then Some (snd w, ps ! fst w, ws)
      else (case take_ready ps ws of
              None \<Rightarrow> None
            | Some x \<Rightarrow> Some (fst x, fst (snd x), w # snd (snd x))))"

fun cost :: "cont \<Rightarrow> nat" where
  "cost (GetStateRest p) = 1"
| "cost (ThenSettle p) = 1"
| "cost k = 2"

definition load :: "(nat \<times> cont) list \<Rightarrow> nat" where
  "load ws = sum_list (map (\<lambda>w. cost (snd w)) ws)"

lemma load_take_ready:
  "take_ready ps ws = Some (k, r, rest) \<Longrightarrow> load ws = cost k + load rest"
  by (induction ws arbitrary: rest)
     (auto simp: load_def split: if_splits option.splits)

lemma waiting_settle_promise [simp]: "waiting (settle_promise p r s) = waiting s"
  by (simp add: settle_promise_def)

lemma waiting_sendRpc [simp]: "waiting (fst (sendRpc m ps s)) = waiting s"
  by (simp add: sendRpc_def new_promise_def nextId_def reject_def Let_def split: sum.splits)

lemma waiting_waitForEvent [simp]: "waiting (fst (waitForEvent ty mp s)) = waiting s"
  by (simp add: waitForEvent_def new_promise_def)

lemma waiting_transition:
  "waiting (transition ty mp m po s) = waiting s @ [(snd (waitForEvent ty mp s), ThenSettle po)]"
  by (simp add: transition_def await_def Let_def split_beta)

lemma cost_pos [simp]: "0 < cost k"
  by (cases k) simp_all

lemma load_run_cont: "load (waiting (run_cont k r s)) < load (waiting s) + cost k"
  by (cases "(k, r, s)" rule: run_cont.cases)
     (auto simp: load_def resolve_def reject_def waiting_transition split: sum.splits)

function run_jobs :: "thunder_session \<Rightarrow> thunder_session" where
  "run_jobs s =
     (case take_ready (promises s) (waiting s) of
        None \<Rightarrow> s
      | Some x \<Rightarrow> run_jobs (run_cont (fst x) (fst (snd x)) (s\<lparr>waiting := snd (snd x)\<rparr>)))"
  by pat_completeness auto

termination
proof (relation "measure (\<lambda>s. load (waiting s))")
  show "wf (measure (\<lambda>s. load (waiting s)))"
    by simp
next
  fix s :: thunder_session and x
  assume ready: "take_ready (promises s) (waiting s) = Some x"
  then have "load (waiting s) = cost (fst x) + load (snd (snd x))"
    by (cases x) (auto dest: load_take_ready)
  moreover have "load (waiting (run_cont (fst x) (fst (snd x)) (s\<lparr>waiting := snd (snd x)\<rparr>)))
      < load (snd (snd x)) + cost (fst x)"
    using load_run_cont [of "fst x" "fst (snd x)" "s\<lparr>waiting := snd (snd x)\<rparr>"] by simp
  ultimately show "(run_cont (fst x) (fst (snd x)) (s\<lparr>waiting := snd (snd x)\<rparr>), s)
      \<in> measure (\<lambda>s. load (waiting s))"
    by simp
qed

declare run_jobs.simps [simp del]

text \<open>
  An event of socket \<open>i\<close> of the session's client: the listeners run, then the suspended
  code. \<open>receive\<close> is the arrival of a message.
\<close>

definition session_event :: "nat \<Rightarrow> payload sock_event \<Rightarrow> thunder_session \<Rightarrow> thunder_session" where
  "session_event i e s = run_jobs (socket_event run_handler wsClient wsClient_update i e s)"

definition receive :: "nat \<Rightarrow> payload \<Rightarrow> thunder_session \<Rightarrow> thunder_session" where
  "receive i d s = session_event i (Message d) s"

section \<open>The debug feed: \<^verbatim>\<open>createWebInspectorClient\<close> (src/lib/webInspector.js)\<close>

text \<open>The four listeners that \<^verbatim>\<open>connect\<close> registers on its client.\<close>

datatype wi_handler = SendEnablement | HandleMessage | LogError | LogClose

text \<open>
  The closure: the configuration, the variable \<^verbatim>\<open>ws\<close>, and the calls
  \<^verbatim>\<open>onMessage(null, text)\<close> made so far. A client that \<^verbatim>\<open>disconnect\<close> has dropped
  is no longer part of the state.
\<close>

record web_inspector =
  hostIP :: string
  port :: nat
  ws :: "(wi_handler, jsval) ws_client option"
  forwarded :: "jsval list"

definition createWebInspectorClient :: "string \<Rightarrow> nat \<Rightarrow> web_inspector" where
  "createWebInspectorClient h p = \<lparr>hostIP = h, port = p, ws = None, forwarded = []\<rparr>"

text \<open>\<^verbatim>\<open>disconnect()\<close>: \<^verbatim>\<open>ws.close()\<close> and \<^verbatim>\<open>ws = null\<close>, after which the client is gone.\<close>

definition wi_disconnect :: "web_inspector \<Rightarrow> web_inspector" where
  "wi_disconnect s = (case ws s of None \<Rightarrow> s | Some t \<Rightarrow> s\<lparr>ws := None\<rparr>)"

definition wi_url :: "web_inspector \<Rightarrow> string" where
  "wi_url s = ''ws://'' @ hostIP s @ '':'' @ show_nat (port s) @ ''/socket/1/1/WebPage''"

text \<open>
  The three \<^verbatim>\<open>ws.send\<close> calls of the \<^verbatim>\<open>'open'\<close> listener; an exception of one of
  them ends the listener.
\<close>

fun send_all :: "'o list \<Rightarrow> ('h, 'o) ws_client \<Rightarrow> ('h, 'o) ws_client" where
  "send_all [] t = t"
| "send_all (d # ds) t = (case send d t of Inl e \<Rightarrow> t | Inr t' \<Rightarrow> send_all ds t')"

definition enablement :: "jsval list" where
  "enablement =
     [JObj [(''id'', JNum 1), (''method'', JStr ''Inspector.enable'')],
      JObj [(''id'', JNum 22), (''method'', JStr ''Console.enable'')],
      JObj [(''id'', JNum 23), (''method'', JStr ''Inspector.initialized'')]]"

text \<open>
  \<^verbatim>\<open>handleMessage(event)\<close>: the text of a \<^verbatim>\<open>Console.messageAdded\<close> notification goes
  to \<^verbatim>\<open>onMessage\<close>; \<^verbatim>\<open>params?.message?.text\<close> stops at \<^verbatim>\<open>undefined\<close> and
  \<^verbatim>\<open>null\<close> instead of throwing.
\<close>

definition optional_get :: "jsval \<Rightarrow> string \<Rightarrow> jsval" where
  "optional_get v k = (case get v k of Inl e \<Rightarrow> JUndefined | Inr x \<Rightarrow> x)"

definition handleMessage :: "payload \<Rightarrow> web_inspector \<Rightarrow> web_inspector" where
  "handleMessage d s =
     (case d of
        Empty \<Rightarrow> s
      | _ \<Rightarrow>
        (case JSON_parse d of
           Inl e \<Rightarrow> s
         | Inr message \<Rightarrow>
           (case get message ''method'' of
              Inl e \<Rightarrow> s
            | Inr m \<Rightarrow>
                if strict_eq m (JStr ''Console.messageAdded'')
                then (case get message ''params'' of
                        Inl e \<Rightarrow> s
                      | Inr ps \<Rightarrow>
                          let text = optional_get (optional_get ps ''message'') ''text''
                          in if truthy text then s\<lparr>forwarded := forwarded s @ [text]\<rparr> else s)
                else s)))"

fun wi_run_handler :: "wi_handler \<Rightarrow> payload sock_event \<Rightarrow> web_inspector \<Rightarrow> web_inspector" where
  "wi_run_handler SendEnablement e s =
     (case ws s of None \<Rightarrow> s | Some t \<Rightarrow> s\<lparr>ws := Some (send_all enablement t)\<rparr>)"
| "wi_run_handler HandleMessage (Message d) s = handleMessage d s"
| "wi_run_handler h e s = s"

text \<open>The client that \<^verbatim>\<open>ws\<close> holds, and a change of it.\<close>

definition wi_client :: "web_inspector \<Rightarrow> (wi_handler, jsval) ws_client" where
  "wi_client s = (case ws s of None \<Rightarrow> createWebSocketClient | Some t \<Rightarrow> t)"

definition wi_update ::
  "((wi_handler, jsval) ws_client \<Rightarrow> (wi_handler, jsval) ws_client) \<Rightarrow> web_inspector \<Rightarrow> web_inspector" where
  "wi_update f s = s\<lparr>ws := map_option f (ws s)\<rparr>"

text \<open>
  \<^verbatim>\<open>connect()\<close>: a new client, its \<^verbatim>\<open>connect\<close>, and the four \<^verbatim>\<open>ws.on\<close> calls.
\<close>

definition wi_connect :: "web_inspector \<Rightarrow> web_inspector" where
  "wi_connect s0 =
     (let s = (if ws s0 \<noteq> None then wi_disconnect s0 else s0);
          s1 = s\<lparr>ws := Some createWebSocketClient\<rparr>;
          s2 = fst (connect wi_run_handler wi_client wi_update (wi_url s) default_timeout [] s1);
          s3 = wi_update (on ''open'' SendEnablement) s2;
          s4 = wi_update (on ''message'' HandleMessage) s3;
          s5 = wi_update (on ''error'' LogError) s4
      in wi_update (on ''close'' LogClose) s5)"

text \<open>An event of socket \<open>i\<close> of the client that \<^verbatim>\<open>ws\<close> holds.\<close>

definition wi_socket_event :: "nat \<Rightarrow> payload sock_event \<Rightarrow> web_inspector \<Rightarrow> web_inspector" where
  "wi_socket_event i e s =
     (case ws s of
        None \<Rightarrow> s
      | Some t0 \<Rightarrow> socket_event wi_run_handler wi_client wi_update i e s)"

section \<open>Notions for stating the properties\<close>

text \<open>The promise that a listener settles, and the promise that suspended code settles.\<close>

fun promise_of :: "handler \<Rightarrow> nat" where
  "promise_of (RpcListener i p) = p"
| "promise_of (HandleEvent ty mp p) = p"

fun target :: "cont \<Rightarrow> nat" where
  "target (GetStateRest p) = p"
| "target (StopRest p) = p"
| "target (StartRest p) = p"
| "target (ResumeRest p) = p"
| "target (ThenSettle p) = p"

text \<open>
  Socket \<open>j\<close> is the client's socket, it is open, and it has the message listener of
  \<^verbatim>\<open>connect\<close>: what arrives on it reaches the handlers.
\<close>

definition listening :: "nat \<Rightarrow> ('h, 'o) ws_client \<Rightarrow> bool" where
  "listening j t \<longleftrightarrow>
     socket t = Some j \<and> j < length (sockets t) \<and> readyState (sockets t ! j) = OPEN \<and>
     listeners_for ''message'' (sock_listeners (sockets t ! j)) = [OnMessage]"

text \<open>
  Function references are handed out in increasing order, and a promise exists before a
  listener or suspended code refers to it; every state that the operations reach from a
  new session is like that.
\<close>

definition fresh_fns :: "('h, 'o) ws_client \<Rightarrow> bool" where
  "fresh_fns t \<longleftrightarrow> (\<forall>l \<in> set (events t). fst (snd l) < next_fn t)"

definition consistent :: "thunder_session \<Rightarrow> bool" where
  "consistent s \<longleftrightarrow>
     fresh_fns (wsClient s) \<and>
     (\<forall>l \<in> set (events (wsClient s)). promise_of (snd (snd l)) < length (promises s)) \<and>
     (\<forall>w \<in> set (waiting s). target (snd w) < length (promises s))"

text \<open>The handlers registered for \<^verbatim>\<open>'message'\<close>, and a dispatch to a list of handlers.\<close>

definition message_handlers :: "thunder_session \<Rightarrow> handler list" where
  "message_handlers s = listeners_for ''message'' (events (wsClient s))"

definition run_all :: "handler list \<Rightarrow> payload sock_event \<Rightarrow> thunder_session \<Rightarrow> thunder_session" where
  "run_all hs e s = fold (\<lambda>h. run_handler h e) hs s"

text \<open>
  A handler is quiet about promise \<open>q\<close> on an event when it settles another promise, or
  is a listener of \<^verbatim>\<open>sendRpc\<close> that ignores the event.
\<close>

definition quiet :: "nat \<Rightarrow> payload sock_event \<Rightarrow> handler \<Rightarrow> bool" where
  "quiet q e h \<longleftrightarrow>
     promise_of h \<noteq> q \<or>
     (case h of RpcListener k p \<Rightarrow> (case e of Message d \<Rightarrow> rpc_verdict k d = Ignore | _ \<Rightarrow> True)
      | _ \<Rightarrow> False)"


text \<open>
  The outcome that a verdict gives a pending promise. A promise is owned by the listener
  of request \<open>i\<close> when that listener is registered and nothing else settles the promise.
  One state grows into another when the client keeps its socket, promises are only added,
  and every added message handler settles an added promise.
\<close>

fun outcome_of :: "verdict \<Rightarrow> jsval promise" where
  "outcome_of Ignore = Pending"
| "outcome_of (DoResolve v) = Resolved v"
| "outcome_of (DoReject e) = Rejected e"

definition owned :: "int \<Rightarrow> nat \<Rightarrow> thunder_session \<Rightarrow> bool" where
  "owned i p s \<longleftrightarrow>
     p < length (promises s) \<and>
     RpcListener i p \<in> set (message_handlers s) \<and>
     (\<forall>h \<in> set (message_handlers s). promise_of h = p \<longrightarrow> h = RpcListener i p) \<and>
     (\<forall>w \<in> set (waiting s). target (snd w) \<noteq> p)"

definition grows :: "thunder_session \<Rightarrow> thunder_session \<Rightarrow> bool" where
  "grows s s' \<longleftrightarrow>
     length (promises s) \<le> length (promises s') \<and>
     socket (wsClient s') = socket (wsClient s) \<and>
     sockets (wsClient s') = sockets (wsClient s) \<and>
     set (message_handlers s) \<subseteq> set (message_handlers s') \<and>
     (\<forall>h \<in> set (message_handlers s').
        h \<in> set (message_handlers s) \<or> length (promises s) \<le> promise_of h)"

text \<open>
  A client that has made one call of \<^verbatim>\<open>connect\<close> and waits for its socket to open:
  the socket has the four listeners and is connecting or, after its close, closed; the
  call's flag is unset, its timer is armed, and its promise is pending or, after an error,
  rejected.
\<close>

definition awaiting_open :: "nat \<Rightarrow> bool \<Rightarrow> bool \<Rightarrow> ('h, 'o) ws_client \<Rightarrow> bool" where
  "awaiting_open ms failed shut t \<longleftrightarrow>
     socket t = Some 0 \<and> length (sockets t) = 1 \<and>
     sock_listeners (sockets t ! 0) =
       [(''open'', 0, OnOpen 0), (''error'', 1, OnError 0), (''close'', 2, OnClose),
        (''message'', 3, OnMessage)] \<and>
     readyState (sockets t ! 0) = (if shut then CLOSED else CONNECTING) \<and>
     calls t = [\<lparr>connected = False, outcome = (if failed then Rejected ConnFailed else Pending)\<rparr>] \<and>
     timers t = [(0, 0, ms)] \<and> 3 < next_fn t"

section \<open>Scenarios\<close>

text \<open>
  \<^verbatim>\<open>connect\<close>, \<^verbatim>\<open>close\<close> and the firing of a timer for a user that only watches,
  with the client alone as the result.
\<close>

definition unobserved :: "('h, 'o) ws_client \<Rightarrow> ('h, 'o, payload) observer" where
  "unobserved t = (t, [])"

definition client_connect :: "string \<Rightarrow> nat \<Rightarrow> string list \<Rightarrow> ('h, 'o) ws_client \<Rightarrow> ('h, 'o) ws_client" where
  "client_connect u timeout ps t = fst (fst (connect note_call fst apfst u timeout ps (unobserved t)))"

definition client_close :: "('h, 'o) ws_client \<Rightarrow> ('h, 'o) ws_client" where
  "client_close t = fst (close note_call fst apfst (unobserved t))"

definition client_timer :: "nat \<Rightarrow> ('h, 'o) ws_client \<Rightarrow> ('h, 'o) ws_client" where
  "client_timer n t = fst (timer_fire note_call fst apfst n (unobserved t))"

text \<open>
  A client right after \<^verbatim>\<open>connect({ url })\<close> with one message listener registered, the
  same client after its socket reported an error, and after its socket opened.
\<close>

definition connecting :: "(wi_handler, jsval) ws_client" where
  "connecting =
     on ''message'' HandleMessage
       (client_connect ''ws://localhost:8080'' default_timeout [] createWebSocketClient)"

definition errored :: "(wi_handler, jsval) ws_client" where
  "errored = fst (observed_event 0 (Error :: payload sock_event) (connecting, []))"

definition opened :: "(wi_handler, jsval) ws_client" where
  "opened = fst (observed_event 0 (Open :: payload sock_event) (connecting, []))"

text \<open>
  A session whose client has connected and whose socket has opened; the replies of the
  controller to a status request and to an activate request with identifier 1.
\<close>

definition linked :: "(handler, jsval) ws_client" where
  "linked =
     fst (observed_event 0 (Open :: payload sock_event)
       (client_connect ''ws://rpi.local:80/jsonrpc'' default_timeout [] createWebSocketClient, []))"

definition session0 :: thunder_session where
  "session0 = (createThunderSession ''rpi.local'' ''UX'' 1)\<lparr>wsClient := linked\<rparr>"

definition status_reply :: "string \<Rightarrow> jsval" where
  "status_reply st =
     JObj [(''jsonrpc'', JStr ''2.0''), (''id'', JNum 1),
           (''result'', JArr [JObj [(''callsign'', JStr ''UX''), (''state'', JStr st)]])]"

definition activate_reply :: jsval where
  "activate_reply = JObj [(''jsonrpc'', JStr ''2.0''), (''id'', JNum 1), (''result'', JNull)]"

text \<open>The session after it has sent a status request.\<close>

definition asked :: thunder_session where
  "asked = fst (sendRpc ''Controller.1.status'' (JObj []) session0)"


text \<open>
  Two notifications on the event channel, a page load and an activation; the session with
  the waiter that \<^verbatim>\<open>start()\<close> registers, \<^verbatim>\<open>waitForEvent('statechange', { state: 'activated' })\<close>.
\<close>

definition urlchange_note :: jsval where
  "urlchange_note =
     JObj [(''jsonrpc'', JStr ''2.0''), (''method'', JStr ''client.Controller.events.all''),
           (''params'', JObj [(''event'', JStr ''urlchange''),
              (''params'', JObj [(''url'', JStr ''https://example.com''), (''loaded'', JBool True)])])]"

definition activated_note :: jsval where
  "activated_note =
     JObj [(''jsonrpc'', JStr ''2.0''), (''method'', JStr ''client.Controller.events.all''),
           (''params'', JObj [(''event'', JStr ''statechange''),
              (''params'', JObj [(''callsign'', JStr ''UX''), (''state'', JStr ''activated'')])])]"

definition armed :: thunder_session where
  "armed = fst (waitForEvent ''statechange'' [(''state'', JStr ''activated'')] session0)"

definition activated_waiter :: handler where
  "activated_waiter = HandleEvent ''statechange'' [(''state'', JStr ''activated'')] 0"

section \<open>Properties of the transport\<close>

lemma conn_reject_fields [simp]:
  "socket (conn_reject c e t) = socket t"
  "sockets (conn_reject c e t) = sockets t"
  "timers (conn_reject c e t) = timers t"
  "trace (conn_reject c e t) = trace t @ [ConnReject c e]"
  by (simp_all add: conn_reject_def update_call_def)

lemma conn_reject_outcome:
  "c < length (calls t) \<Longrightarrow>
     outcome (calls (conn_reject c e t) ! c) = settle (Rejected e) (outcome (calls t ! c))"
  by (simp add: conn_reject_def update_call_def)

lemma conn_resolve_fields [simp]:
  "socket (conn_resolve c t) = socket t"
  "sockets (conn_resolve c t) = sockets t"
  by (simp_all add: conn_resolve_def update_call_def)

lemma onOpen_fields [simp]:
  "socket (onOpen c t) = socket t"
  "sockets (onOpen c t) = sockets t"
  by (simp_all add: onOpen_def update_call_def clearTimeout_def split: option.splits)

lemma onError_fields [simp]:
  "socket (onError c t) = socket t"
  "sockets (onError c t) = sockets t"
  by (simp_all add: onError_def)

lemma dispatch_observed [simp]: "fst (dispatchEvent note_call fst e s) = fst s"
proof -
  have "fst (fold (\<lambda>h. note_call h e) hs s) = fst s" for hs
    by (induction hs arbitrary: s) (simp_all add: note_call_def)
  then show ?thesis
    by (simp add: dispatchEvent_def)
qed

lemma run_callback_observed:
  "socket (fst (run_callback note_call fst apfst e cb s)) = socket (fst s)"
  "sockets (fst (run_callback note_call fst apfst e cb s)) = sockets (fst s)"
  by (cases cb; simp split: sock_event.splits)+

lemma callbacks_observed:
  "socket (fst (fold (run_callback note_call fst apfst e) cbs s)) = socket (fst s)"
  "sockets (fst (fold (run_callback note_call fst apfst e) cbs s)) = sockets (fst s)"
  by (induction cbs arbitrary: s; simp add: run_callback_observed)+

lemma socket_close_observed:
  "socket (fst (socket_close note_call fst apfst i s)) = socket (fst s)"
  "length (sockets (fst (socket_close note_call fst apfst i s))) = length (sockets (fst s))"
  by (simp_all add: socket_close_def Let_def update_socket_def callbacks_observed)

lemma client_close_socket [simp]: "socket (client_close t) = None"
  by (simp add: client_close_def close_def unobserved_def Let_def split: option.splits)

lemma client_close_when_closed: "socket t = None \<Longrightarrow> client_close t = t"
  by (simp add: client_close_def close_def unobserved_def)

lemma client_close_idempotent: "client_close (client_close t) = client_close t"
  by (simp add: client_close_when_closed)

lemmas scenario_defs =
  connecting_def errored_def opened_def observed_event_def socket_event_def
  client_connect_def unobserved_def connect_def
  createWebSocketClient_def on_def addEventListener_def listeners_for_def update_socket_def
  update_call_def dispatchEvent_def note_call_def onOpen_def onError_def conn_reject_def
  conn_resolve_def clearTimeout_def settle_def default_timeout_def Let_def

lemmas closing_defs =
  client_timer_def client_close_def timer_fire_def on_timeout_def close_def socket_close_def
  removeEventListener_def

text \<open>
  C4: the socket of \<open>connecting\<close> never opens and reports nothing. When the timer of its
  \<^verbatim>\<open>connect\<close> fires, \<^verbatim>\<open>close()\<close> detaches no listener, so the failure that the closing
  of a connecting socket reports reaches \<^verbatim>\<open>onError\<close>, which rejects the promise with the
  error of a failed connection before the timer callback rejects it with the timeout error.
  The socket is closed first and released, and \<^verbatim>\<open>isConnected()\<close> is false. With the
  \<^verbatim>\<open>'error'\<close> listener detached, the same timer rejects with the timeout error.
\<close>

theorem timeout_rejects_as_failed:
  "map_of (timers connecting) 0 = Some (0, default_timeout) \<and>
   readyState (sockets connecting ! 0) = CONNECTING \<and>
   \<not> connected (calls connecting ! 0) \<and>
   outcome (calls connecting ! 0) = Pending \<and>
   trace connecting = [] \<and>
   outcome (calls (client_timer 0 connecting) ! 0) = Rejected ConnFailed \<and>
   trace (client_timer 0 connecting) =
     [SocketClose 0, ConnReject 0 ConnFailed, ConnReject 0 ConnTimedOut] \<and>
   socket (client_timer 0 connecting) = None \<and>
   \<not> isConnected (client_timer 0 connecting) \<and>
   listeners_for ''error'' (sock_listeners (sockets (client_timer 0 connecting) ! 0)) = [OnError 0] \<and>
   outcome (calls (client_timer 0
     (update_socket 0 (\<lambda>k. k\<lparr>sock_listeners := removeEventListener ''error'' 1 (sock_listeners k)\<rparr>)
        connecting)) ! 0) = Rejected ConnTimedOut"
  by (simp add: scenario_defs closing_defs isConnected_def)

text \<open>
  The same from the events: after \<^verbatim>\<open>connect\<close> on a new client, whatever events other
  than \<^verbatim>\<open>open\<close> the socket reports, the firing timer leaves no socket, and the promise
  is rejected with the timeout error only if the socket has reported its close and no
  error before.
\<close>

lemma awaiting_open_connect:
  "awaiting_open ms False False (client_connect u ms ps createWebSocketClient)"
  by (simp add: awaiting_open_def client_connect_def unobserved_def connect_def
        createWebSocketClient_def addEventListener_def Let_def)

lemma awaiting_open_event:
  assumes "awaiting_open ms failed shut (fst s)" and "e \<noteq> Open"
  shows "awaiting_open ms (failed \<or> e = Error) (shut \<or> e = Close) (fst (observed_event 0 e s))"
proof -
  obtain t lg where s: "s = (t, lg)"
    by (cases s)
  from assms(1) have t: "length (sockets t) = 1"
    "sock_listeners (sockets t ! 0) =
       [(''open'', 0, OnOpen 0), (''error'', 1, OnError 0), (''close'', 2, OnClose),
        (''message'', 3, OnMessage)]"
    by (simp_all add: awaiting_open_def s)
  show ?thesis
  proof (cases e)
    case Open
    with assms(2) show ?thesis by simp
  next
    case Error
    with assms(1) t show ?thesis
      by (simp add: s observed_event_def socket_event_def update_socket_def listeners_for_def
            awaiting_open_def onError_def conn_reject_def update_call_def settle_def)
  next
    case Close
    with assms(1) t show ?thesis
      by (simp add: s observed_event_def socket_event_def update_socket_def listeners_for_def
            awaiting_open_def)
  next
    case (Message d)
    with assms(1) t show ?thesis
      by (simp add: s observed_event_def socket_event_def update_socket_def listeners_for_def
            awaiting_open_def)
  qed
qed

lemma awaiting_open_events:
  "awaiting_open ms failed shut (fst s) \<Longrightarrow> Open \<notin> set es \<Longrightarrow>
     awaiting_open ms (failed \<or> Error \<in> set es) (shut \<or> Close \<in> set es)
       (fst (fold (observed_event 0) es s))"
proof (induction es arbitrary: s failed shut)
  case Nil
  then show ?case by simp
next
  case (Cons e es)
  from Cons.prems
  have "awaiting_open ms (failed \<or> e = Error) (shut \<or> e = Close) (fst (observed_event 0 e s))"
    by (intro awaiting_open_event) auto
  from Cons.IH [OF this] Cons.prems(2)
  have "awaiting_open ms ((failed \<or> e = Error) \<or> Error \<in> set es)
      ((shut \<or> e = Close) \<or> Close \<in> set es) (fst (fold (observed_event 0) (e # es) s))"
    by simp
  moreover have "((failed \<or> e = Error) \<or> Error \<in> set es) = (failed \<or> Error \<in> set (e # es))"
    "((shut \<or> e = Close) \<or> Close \<in> set es) = (shut \<or> Close \<in> set (e # es))"
    by auto
  ultimately show ?case
    by (simp only:)
qed

lemma timer_while_awaiting_open:
  assumes "awaiting_open ms failed shut t"
  shows "socket (client_timer 0 t) = None \<and> \<not> isConnected (client_timer 0 t) \<and>
    outcome (calls (client_timer 0 t) ! 0) =
      (if failed \<or> \<not> shut then Rejected ConnFailed else Rejected ConnTimedOut)"
proof -
  from assms have "sockets t \<noteq> []"
    by (auto simp: awaiting_open_def)
  with assms show ?thesis
    by (cases failed; cases shut;
        simp add: awaiting_open_def closing_defs unobserved_def isConnected_def Let_def
          update_socket_def listeners_for_def onError_def conn_reject_def
          update_call_def settle_def)
qed

lemma never_opened_then_timeout:
  fixes t1 t2 :: "('h, 'o) ws_client" and es :: "'i sock_event list"
  assumes "t1 = client_connect u ms ps createWebSocketClient"
    and "t2 = fst (fold (observed_event 0) es (t1, lg))" and "Open \<notin> set es"
  shows "socket (client_timer 0 t2) = None \<and> \<not> isConnected (client_timer 0 t2) \<and>
    outcome (calls (client_timer 0 t2) ! 0) =
      (if Error \<in> set es \<or> Close \<notin> set es then Rejected ConnFailed else Rejected ConnTimedOut)"
proof -
  have "awaiting_open ms False False (fst (t1, lg))"
    by (simp add: assms(1) awaiting_open_connect)
  from awaiting_open_events [OF this assms(3)]
  have "awaiting_open ms (Error \<in> set es) (Close \<in> set es) t2"
    by (simp add: assms(2))
  from timer_while_awaiting_open [OF this] show ?thesis
    by simp
qed

text \<open>
  C5: \<^verbatim>\<open>close()\<close> releases the socket and a second call changes nothing, but it
  detaches no listener: after \<^verbatim>\<open>close()\<close> the socket still has the four listeners of
  \<^verbatim>\<open>connect\<close>, and a message of the closed socket still reaches the handlers.
\<close>

theorem close_detaches_no_listener:
  "socket (client_close connecting) = None \<and>
   client_close (client_close connecting) = client_close connecting \<and>
   sock_listeners (sockets (client_close connecting) ! 0) =
     [(''open'', 0, OnOpen 0), (''error'', 1, OnError 0), (''close'', 2, OnClose),
      (''message'', 3, OnMessage)] \<and>
   snd (observed_event 0 (Message Malformed) (client_close connecting, [])) =
     [(HandleMessage, Message Malformed)]"
  by (simp add: client_close_idempotent)
     (simp add: scenario_defs closing_defs)

text \<open>
  C6: \<^verbatim>\<open>send(data)\<close> throws when there is no socket and when the socket is not open; with
  an open socket the data goes to the socket. No call returns without one of the two.
\<close>

theorem send_throws_unless_open:
  "(socket t = None \<longrightarrow> send d t = Inl WsNotOpen) \<and>
   (\<forall>i. socket t = Some i \<and> readyState (sockets t ! i) \<noteq> OPEN \<longrightarrow> send d t = Inl WsNotOpen) \<and>
   (\<forall>i. socket t = Some i \<and> i < length (sockets t) \<and> readyState (sockets t ! i) = OPEN \<longrightarrow>
      send d t = Inr (t\<lparr>trace := trace t @ [SocketSend i d]\<rparr>))"
  by (simp add: send_def)

theorem send_throws_unless_open_witness:
  "socket (client_close opened) = None \<and>
   send (JStr ''Message'') (client_close opened) = Inl WsNotOpen \<and>
   socket connecting = Some 0 \<and> readyState (sockets connecting ! 0) \<noteq> OPEN \<and>
   send (JStr ''Message'') connecting = Inl WsNotOpen \<and>
   socket opened = Some 0 \<and> readyState (sockets opened ! 0) = OPEN \<and>
   send (JStr ''Hello, Server!'') opened =
     Inr (opened\<lparr>trace := trace opened @ [SocketSend 0 (JStr ''Hello, Server!'')]\<rparr>)"
proof -
  have facts: "socket (client_close opened) = None"
    "socket connecting = Some 0" "readyState (sockets connecting ! 0) \<noteq> OPEN"
    "socket opened = Some 0" "0 < length (sockets opened)"
    "readyState (sockets opened ! 0) = OPEN"
    by (simp_all add: scenario_defs)
  from send_throws_unless_open [of "client_close opened" "JStr ''Message''"]
    send_throws_unless_open [of connecting "JStr ''Message''"]
    send_throws_unless_open [of opened "JStr ''Hello, Server!''"] facts
  show ?thesis
    by simp
qed

section \<open>Properties of the session\<close>

lemma settle_promise_fields [simp]:
  "wsClient (settle_promise p r s) = wsClient s"
  "callsign (settle_promise p r s) = callsign s"
  "messageId (settle_promise p r s) = messageId s"
  "length (promises (settle_promise p r s)) = length (promises s)"
  by (simp_all add: settle_promise_def)

lemma settle_promise_nth:
  "promises (settle_promise p r s) ! q =
     (if q = p \<and> p < length (promises s) then settle r (promises s ! p) else promises s ! q)"
  by (simp add: settle_promise_def)

lemma off_fields [simp]:
  "socket (off ev h t) = socket t"
  "sockets (off ev h t) = sockets t"
  "trace (off ev h t) = trace t"
  by (simp_all add: off_def)

lemma off_events: "fresh_fns t \<Longrightarrow> events (off ev h t) = events t"
  by (auto simp: off_def fresh_fns_def removeEventListener_def filter_id_conv)

lemma off_fresh: "fresh_fns t \<Longrightarrow> fresh_fns (off ev h t)"
  by (auto simp: off_def fresh_fns_def removeEventListener_def)

lemma on_fields [simp]:
  "socket (on ev h t) = socket t"
  "sockets (on ev h t) = sockets t"
  "trace (on ev h t) = trace t"
  by (simp_all add: on_def)

lemma on_events: "fresh_fns t \<Longrightarrow> events (on ev h t) = events t @ [(ev, next_fn t, h)]"
  by (auto simp: on_def fresh_fns_def addEventListener_def)

lemma on_fresh: "fresh_fns t \<Longrightarrow> fresh_fns (on ev h t)"
  by (auto simp: on_def fresh_fns_def addEventListener_def)

lemma run_handler_fields [simp]:
  "callsign (run_handler h e s) = callsign s"
  "messageId (run_handler h e s) = messageId s"
  "waiting (run_handler h e s) = waiting s"
  "length (promises (run_handler h e s)) = length (promises s)"
  "socket (wsClient (run_handler h e s)) = socket (wsClient s)"
  "sockets (wsClient (run_handler h e s)) = sockets (wsClient s)"
  "trace (wsClient (run_handler h e s)) = trace (wsClient s)"
  by (cases "(h, e, s)" rule: run_handler.cases;
      simp add: handleEvent_def resolve_def reject_def ws_off_def
           split: verdict.splits payload.splits sum.splits)+

lemma run_handler_events:
  "fresh_fns (wsClient s) \<Longrightarrow>
     events (wsClient (run_handler h e s)) = events (wsClient s) \<and>
     fresh_fns (wsClient (run_handler h e s))"
  by (cases "(h, e, s)" rule: run_handler.cases;
      simp add: handleEvent_def resolve_def reject_def ws_off_def off_events off_fresh
           split: verdict.splits payload.splits sum.splits)

lemma run_handler_other:
  "promise_of h \<noteq> q \<Longrightarrow> promises (run_handler h e s) ! q = promises s ! q"
  by (cases "(h, e, s)" rule: run_handler.cases;
      simp add: handleEvent_def resolve_def reject_def ws_off_def settle_promise_nth
           split: verdict.splits payload.splits sum.splits)

lemma run_all_fields [simp]:
  "callsign (run_all hs e s) = callsign s"
  "messageId (run_all hs e s) = messageId s"
  "waiting (run_all hs e s) = waiting s"
  "length (promises (run_all hs e s)) = length (promises s)"
  "socket (wsClient (run_all hs e s)) = socket (wsClient s)"
  "sockets (wsClient (run_all hs e s)) = sockets (wsClient s)"
  "trace (wsClient (run_all hs e s)) = trace (wsClient s)"
  by (induction hs arbitrary: s; simp add: run_all_def)+

lemma run_all_events:
  "fresh_fns (wsClient s) \<Longrightarrow>
     events (wsClient (run_all hs e s)) = events (wsClient s) \<and>
     fresh_fns (wsClient (run_all hs e s))"
  by (induction hs arbitrary: s) (simp_all add: run_all_def run_handler_events)

lemma run_handler_quiet:
  "quiet q e h \<Longrightarrow> promises (run_handler h e s) ! q = promises s ! q"
proof (cases "promise_of h = q")
  case False
  then show ?thesis by (simp add: run_handler_other)
next
  case True
  assume "quiet q e h"
  with True show ?thesis
    by (cases h; cases e) (simp_all add: quiet_def)
qed

lemma run_all_quiet:
  "\<forall>h \<in> set hs. quiet q e h \<Longrightarrow> promises (run_all hs e s) ! q = promises s ! q"
  by (induction hs arbitrary: s) (simp_all add: run_all_def run_handler_quiet)

lemma run_all_append: "run_all (hs @ [h]) e s = run_handler h e (run_all hs e s)"
  by (simp add: run_all_def)

lemma socket_event_listening:
  assumes "listening j (wsClient s)"
  shows "socket_event run_handler wsClient wsClient_update j (Message d) s =
           run_all (message_handlers s) (Message d) s"
proof -
  have "update_socket j (\<lambda>k. k) (wsClient s) = wsClient s"
    by (simp add: update_socket_def)
  then have same: "wsClient_update (update_socket j (\<lambda>k. k)) s = s"
    by simp
  from assms show ?thesis
    by (simp add: socket_event_def same listening_def dispatchEvent_def run_all_def
          message_handlers_def)
qed

lemma send_listening:
  "listening j t \<Longrightarrow> send d t = Inr (t\<lparr>trace := trace t @ [SocketSend j d]\<rparr>)"
  by (simp add: listening_def send_def)

lemma sendRpc_listening:
  assumes "listening j (wsClient s)"
  shows "sendRpc m ps s =
    (s\<lparr>promises := promises s @ [Pending], messageId := messageId s + 1,
       wsClient := on ''message'' (RpcListener (messageId s) (length (promises s)))
         ((wsClient s)\<lparr>trace := trace (wsClient s) @ [SocketSend j (request (messageId s) m ps)]\<rparr>)\<rparr>,
     length (promises s))"
  using send_listening [OF assms]
  by (simp add: sendRpc_def new_promise_def nextId_def)

lemma sendRpc_promises:
  "snd (sendRpc m ps s) = length (promises s)"
  "length (promises (fst (sendRpc m ps s))) = Suc (length (promises s))"
  "q < length (promises s) \<Longrightarrow> promises (fst (sendRpc m ps s)) ! q = promises s ! q"
  "callsign (fst (sendRpc m ps s)) = callsign s"
  by (simp_all add: sendRpc_def new_promise_def nextId_def reject_def settle_promise_nth
        nth_append split: sum.splits)

lemma waitForEvent_promises:
  "snd (waitForEvent ty mp s) = length (promises s)"
  "length (promises (fst (waitForEvent ty mp s))) = Suc (length (promises s))"
  "q < length (promises s) \<Longrightarrow> promises (fst (waitForEvent ty mp s)) ! q = promises s ! q"
  "callsign (fst (waitForEvent ty mp s)) = callsign s"
  by (simp_all add: waitForEvent_def new_promise_def nth_append)

lemma transition_promises:
  "length (promises (transition ty mp m po s)) = Suc (Suc (length (promises s)))"
  "q < length (promises s) \<Longrightarrow> promises (transition ty mp m po s) ! q = promises s ! q"
  by (simp_all add: transition_def await_def split_beta Let_def sendRpc_promises
        waitForEvent_promises)

lemma run_cont_length: "length (promises s) \<le> length (promises (run_cont k r s))"
  by (cases "(k, r, s)" rule: run_cont.cases)
     (auto simp: resolve_def reject_def transition_promises split: sum.splits)

lemma run_cont_other:
  "q < length (promises s) \<Longrightarrow> target k \<noteq> q \<Longrightarrow> promises (run_cont k r s) ! q = promises s ! q"
  by (cases "(k, r, s)" rule: run_cont.cases)
     (auto simp: resolve_def reject_def transition_promises settle_promise_nth split: sum.splits)

lemma run_cont_targets:
  "w \<in> set (waiting (run_cont k r s)) \<Longrightarrow> w \<in> set (waiting s) \<or> target (snd w) = target k"
  by (cases "(k, r, s)" rule: run_cont.cases)
     (auto simp: resolve_def reject_def waiting_transition split: sum.splits if_splits)

lemma take_ready_sound:
  "take_ready ps wl = Some x \<Longrightarrow>
     (\<exists>p. (p, fst x) \<in> set wl) \<and> set (snd (snd x)) \<subseteq> set wl"
  by (induction wl arbitrary: x) (auto split: if_splits option.splits)

lemma run_jobs_other:
  "q < length (promises s) \<Longrightarrow> \<forall>w \<in> set (waiting s). target (snd w) \<noteq> q \<Longrightarrow>
     promises (run_jobs s) ! q = promises s ! q"
proof (induction s rule: run_jobs.induct)
  case (1 s)
  show ?case
  proof (cases "take_ready (promises s) (waiting s)")
    case None
    then show ?thesis by (simp add: run_jobs.simps [of s])
  next
    case (Some x)
    let ?s' = "run_cont (fst x) (fst (snd x)) (s\<lparr>waiting := snd (snd x)\<rparr>)"
    from take_ready_sound [OF Some] obtain p where
      mem: "(p, fst x) \<in> set (waiting s)" and sub: "set (snd (snd x)) \<subseteq> set (waiting s)"
      by blast
    from mem "1.prems"(2) have tgt: "target (fst x) \<noteq> q" by force
    have len: "q < length (promises ?s')"
      using run_cont_length [of "s\<lparr>waiting := snd (snd x)\<rparr>" "fst x" "fst (snd x)"] "1.prems"(1)
      by simp
    have wait: "\<forall>w \<in> set (waiting ?s'). target (snd w) \<noteq> q"
    proof
      fix w assume "w \<in> set (waiting ?s')"
      from run_cont_targets [OF this] sub "1.prems"(2) tgt
      show "target (snd w) \<noteq> q" by auto
    qed
    have "promises (run_jobs ?s') ! q = promises ?s' ! q"
      using "1.IH" [OF Some len wait] .
    also have "\<dots> = promises s ! q"
      using run_cont_other [of q "s\<lparr>waiting := snd (snd x)\<rparr>" "fst x" "fst (snd x)"] "1.prems"(1) tgt
      by simp
    finally show ?thesis
      using Some by (simp add: run_jobs.simps [of s])
  qed
qed

lemma strict_eq_JNum [simp]: "strict_eq v (JNum i) \<longleftrightarrow> v = JNum i"
  by (cases v) simp_all

lemma strict_eq_JStr [simp]: "strict_eq v (JStr x) \<longleftrightarrow> v = JStr x"
  by (cases v) simp_all

lemma get_fails: "get r k = Inl e \<longleftrightarrow> (r = JUndefined \<or> r = JNull) \<and> e = TypeError"
  by (cases r) auto

lemma rpc_verdict_cases:
  "rpc_verdict i d =
     (case d of
        Empty \<Rightarrow> Ignore
      | Malformed \<Rightarrow> DoReject SyntaxError
      | Json r \<Rightarrow>
          if r = JUndefined \<or> r = JNull then DoReject TypeError
          else if get r ''id'' = Inr (JNum i)
          then DoResolve (case get r ''result'' of Inr x \<Rightarrow> if truthy x then x else r | Inl e \<Rightarrow> r)
          else Ignore)"
  by (cases d; simp add: rpc_verdict_def split: sum.splits)
     (cases "case d of Json r \<Rightarrow> r | _ \<Rightarrow> JNull"; auto)

lemma run_jobs_done: "take_ready (promises s) (waiting s) = None \<Longrightarrow> run_jobs s = s"
  by (simp add: run_jobs.simps [of s])


lemma fresh_fns_trace [simp]: "fresh_fns (t\<lparr>trace := x\<rparr>) = fresh_fns t"
  by (simp add: fresh_fns_def)

lemma listening_trace [simp]: "listening j (t\<lparr>trace := x\<rparr>) = listening j t"
  by (simp add: listening_def)

lemma listening_on [simp]: "listening j (on ev h t) = listening j t"
  by (simp add: listening_def)

lemma message_handlers_sendRpc:
  assumes "listening j (wsClient s)" and "fresh_fns (wsClient s)"
  shows "message_handlers (fst (sendRpc m ps s)) =
           message_handlers s @ [RpcListener (messageId s) (length (promises s))]"
  using assms
  by (simp add: sendRpc_listening message_handlers_def on_events listeners_for_def)

lemma receive_after_sendRpc:
  assumes "listening j (wsClient s)" and "consistent s"
  shows "promises (receive j d (fst (sendRpc m ps s))) ! length (promises s) =
    (case rpc_verdict (messageId s) d of
       Ignore \<Rightarrow> Pending | DoResolve v \<Rightarrow> Resolved v | DoReject e \<Rightarrow> Rejected e)"
proof -
  let ?n = "length (promises s)"
  let ?s1 = "fst (sendRpc m ps s)"
  let ?hs = "message_handlers s"
  let ?sa = "run_all ?hs (Message d) ?s1"
  let ?sb = "run_handler (RpcListener (messageId s) ?n) (Message d) ?sa"
  from assms have fresh: "fresh_fns (wsClient s)"
    by (simp add: consistent_def)
  have lis: "listening j (wsClient ?s1)"
    using assms(1) by (simp add: sendRpc_listening)
  have old: "\<forall>h \<in> set ?hs. quiet ?n (Message d) h"
    using assms(2) by (force simp: consistent_def message_handlers_def listeners_for_def quiet_def)
  have ev: "socket_event run_handler wsClient wsClient_update j (Message d) ?s1 = ?sb"
    by (simp add: socket_event_listening [OF lis] message_handlers_sendRpc [OF assms(1) fresh]
          run_all_append)
  have "promises ?sa ! ?n = promises ?s1 ! ?n"
    using old by (rule run_all_quiet)
  also have "\<dots> = Pending"
    using assms(1) by (simp add: sendRpc_listening)
  finally have pend: "promises ?sa ! ?n = Pending" .
  have len: "length (promises ?sa) = Suc ?n"
    by (simp add: sendRpc_promises)
  have sb: "promises ?sb ! ?n =
    (case rpc_verdict (messageId s) d of
       Ignore \<Rightarrow> Pending | DoResolve v \<Rightarrow> Resolved v | DoReject e \<Rightarrow> Rejected e)"
    using pend len
    by (simp add: resolve_def reject_def settle_promise_nth settle_def split: verdict.splits)
  have "promises (run_jobs ?sb) ! ?n = promises ?sb ! ?n"
  proof (rule run_jobs_other)
    show "?n < length (promises ?sb)"
      using len by (simp del: run_handler.simps)
    show "\<forall>w \<in> set (waiting ?sb). target (snd w) \<noteq> ?n"
      using assms(2) by (auto simp del: run_handler.simps simp: consistent_def)
  qed
  with sb ev show ?thesis
    by (simp add: receive_def session_event_def)
qed

lemmas session_defs =
  session0_def linked_def createThunderSession_def status_reply_def activate_reply_def
  listening_def consistent_def fresh_fns_def message_handlers_def

lemma session0_ready: "listening 0 (wsClient session0)" "consistent session0"
  by (simp_all add: session_defs scenario_defs)

lemma asked_ready: "listening 0 (wsClient asked)" "consistent asked"
  by (simp_all add: asked_def sendRpc_listening [OF session0_ready(1)])
     (simp_all add: session_defs scenario_defs)






lemma transition_callsign [simp]: "callsign (transition ty mp m po s) = callsign s"
  by (simp add: transition_def split_beta Let_def await_def sendRpc_promises waitForEvent_promises)

lemma run_cont_callsign [simp]: "callsign (run_cont k r s) = callsign s"
  by (cases "(k, r, s)" rule: run_cont.cases)
     (auto simp: resolve_def reject_def split: sum.splits)























lemma receive_idle:
  assumes "listening j (wsClient s)" and "waiting s = []"
  shows "receive j d s = run_all (message_handlers s) (Message d) s"
proof -
  have "take_ready (promises (run_all (message_handlers s) (Message d) s))
      (waiting (run_all (message_handlers s) (Message d) s)) = None"
    using assms(2) by simp
  then show ?thesis
    by (simp add: receive_def session_event_def socket_event_listening [OF assms(1)]
          run_jobs_done)
qed

lemma waitForEvent_session0:
  "waitForEvent ty mp session0 =
     (session0\<lparr>promises := [Pending],
        wsClient := on ''message'' (HandleEvent ty mp 0) (wsClient session0)\<rparr>, 0)"
  by (simp add: waitForEvent_def new_promise_def session0_def createThunderSession_def)

lemma session0_facts:
  "waiting session0 = []" "fresh_fns (wsClient session0)" "events (wsClient session0) = []"
  "next_fn (wsClient session0) = 4"
  by (simp_all add: session_defs scenario_defs)

text \<open>
  What holds of \<^verbatim>\<open>waitForEvent\<close>: its handler resolves the future only with a parsed
  message that is on the event channel or carries the awaited event type, and whose
  parameters have, for every entry of \<^verbatim>\<open>matchParams\<close>, a strictly equal value.
\<close>

lemma every_match_entry:
  "every_match mp r = Inr True \<Longrightarrow> kv \<in> set mp \<Longrightarrow>
     \<exists>ps pps v. get r ''params'' = Inr ps \<and> get ps ''params'' = Inr pps \<and>
       get pps (fst kv) = Inr v \<and> strict_eq v (snd kv)"
  by (induction mp) (auto split: sum.splits if_splits)

lemma waiter_resolves_only_on_match:
  assumes "p < length (promises s)" and "promises s ! p = Pending"
    and "promises (run_handler (HandleEvent ty mp p) (Message d) s) ! p = Resolved v"
  shows "d = Json v \<and> every_match mp v = Inr True \<and>
    (get v ''method'' = Inr (JStr ''client.Controller.events.all'') \<or>
     (\<exists>ps. get v ''params'' = Inr ps \<and> get ps ''event'' = Inr (JStr ty)))"
  using assms
  by (cases d)
     (auto simp: handleEvent_def event_matches_def resolve_def ws_off_def settle_promise_nth
        settle_def split: sum.splits if_splits)

text \<open>
  C2: on the event channel the event type is not compared. A waiter for \<open>statechange\<close>
  is resolved by a \<open>urlchange\<close> notification: the first operand of \<^verbatim>\<open>||\<close> is true for
  every notification of the channel, and \<^verbatim>\<open>matchParams\<close> is empty by default.
\<close>

theorem waitForEvent_other_type_resolves:
  "get urlchange_note ''method'' = Inr (JStr ''client.Controller.events.all'') \<and>
   get urlchange_note ''params'' = Inr (JObj [(''event'', JStr ''urlchange''),
     (''params'', JObj [(''url'', JStr ''https://example.com''), (''loaded'', JBool True)])]) \<and>
   promises (fst (waitForEvent ''statechange'' [] session0)) !
     snd (waitForEvent ''statechange'' [] session0) = Pending \<and>
   promises (receive 0 (Json urlchange_note) (fst (waitForEvent ''statechange'' [] session0))) !
     snd (waitForEvent ''statechange'' [] session0) = Resolved urlchange_note"
proof -
  let ?s1 = "fst (waitForEvent ''statechange'' [] session0)"
  have s1: "listening 0 (wsClient ?s1)" "waiting ?s1 = []"
    "message_handlers ?s1 = [HandleEvent ''statechange'' [] 0]"
    using session0_ready(1) session0_facts
    by (simp_all add: waitForEvent_session0 message_handlers_def on_events listeners_for_def)
  show ?thesis
    unfolding receive_idle [OF s1(1,2)] s1(3)
    by (simp add: waitForEvent_session0 run_all_def handleEvent_def event_matches_def
          urlchange_note_def resolve_def settle_promise_def settle_def ws_off_def)
qed

text \<open>
  C3: the waiter is not deregistered. After the notification that resolves it, the handler
  is still registered (\<^verbatim>\<open>off\<close> asks to remove a function that was never added), and the
  next matching notification runs its matching branch again.
\<close>

theorem waiter_stays_registered:
  "promises (receive 0 (Json activated_note) armed) ! 0 = Resolved activated_note \<and>
   message_handlers armed = [activated_waiter] \<and>
   message_handlers (receive 0 (Json activated_note) armed) = [activated_waiter] \<and>
   receive 0 (Json activated_note) (receive 0 (Json activated_note) armed) =
     resolve 0 activated_note (ws_off activated_waiter (receive 0 (Json activated_note) armed)) \<and>
   next_fn (wsClient (receive 0 (Json activated_note) (receive 0 (Json activated_note) armed))) =
     Suc (next_fn (wsClient (receive 0 (Json activated_note) armed)))"
proof -
  let ?s2 = "receive 0 (Json activated_note) armed"
  have m: "event_matches ''statechange'' [(''state'', JStr ''activated'')] activated_note = Inr True"
    by (simp add: event_matches_def activated_note_def)
  have s1: "listening 0 (wsClient armed)" "waiting armed = []"
    "message_handlers armed = [activated_waiter]" "fresh_fns (wsClient armed)"
    "promises armed = [Pending]"
    using session0_ready(1) session0_facts
    by (simp_all add: armed_def activated_waiter_def waitForEvent_session0 message_handlers_def
          on_events on_fresh listeners_for_def)
  have s2: "?s2 = resolve 0 activated_note (ws_off activated_waiter armed)"
    unfolding receive_idle [OF s1(1,2)] s1(3)
    by (simp add: run_all_def handleEvent_def m activated_waiter_def)
  have s2': "listening 0 (wsClient ?s2)" "waiting ?s2 = []"
    "message_handlers ?s2 = [activated_waiter]" "promises ?s2 ! 0 = Resolved activated_note"
    unfolding s2 using s1
    by (simp_all add: resolve_def ws_off_def listening_def message_handlers_def off_events
          settle_promise_nth settle_def)
  have s3: "receive 0 (Json activated_note) ?s2 =
      resolve 0 activated_note (ws_off activated_waiter ?s2)"
    unfolding receive_idle [OF s2'(1,2)] s2'(3)
    by (simp add: run_all_def handleEvent_def m activated_waiter_def)
  show ?thesis
    unfolding s3 using s1(3) s2'(3,4) by (simp add: resolve_def ws_off_def off_def)
qed

subsection \<open>The invariant\<close>

text \<open>
  A new session is consistent, and every operation and every socket event keeps a session
  consistent.
\<close>

lemma consistent_new: "consistent (createThunderSession h cs seed)"
  by (simp add: consistent_def fresh_fns_def createThunderSession_def createWebSocketClient_def)

lemma consistent_settle_promise: "consistent s \<Longrightarrow> consistent (settle_promise p r s)"
  by (simp add: consistent_def)

lemma consistent_client:
  assumes "consistent s" and "events t = events (wsClient s)" and "next_fn t = next_fn (wsClient s)"
  shows "consistent (s\<lparr>wsClient := t\<rparr>)"
  using assms by (simp add: consistent_def fresh_fns_def)

lemma consistent_register:
  assumes "consistent s" and "promise_of h < length (promises s)"
  shows "consistent (s\<lparr>wsClient := on ev h (wsClient s)\<rparr>)"
proof -
  from assms(1) have fresh: "fresh_fns (wsClient s)"
    by (simp add: consistent_def)
  show ?thesis
    using assms on_fresh [OF fresh, of ev h]
    by (auto simp: consistent_def on_events [OF fresh])
qed

lemma consistent_new_promise: "consistent s \<Longrightarrow> consistent (fst (new_promise s))"
  by (auto simp: consistent_def new_promise_def less_SucI)

lemma consistent_sendRpc: "consistent s \<Longrightarrow> consistent (fst (sendRpc m a s))"
proof -
  assume c: "consistent s"
  let ?s2 = "s\<lparr>promises := promises s @ [Pending], messageId := messageId s + 1\<rparr>"
  have c2: "consistent ?s2"
    using c by (auto simp: consistent_def less_SucI)
  show ?thesis
  proof (cases "send (request (messageId s) m a) (wsClient s)")
    case (Inl e)
    then show ?thesis
      using consistent_settle_promise [OF c2]
      by (simp add: sendRpc_def new_promise_def nextId_def reject_def)
  next
    case (Inr t)
    then have t: "t = (wsClient s)\<lparr>trace := trace (wsClient s) @
        [SocketSend (the (socket (wsClient s))) (request (messageId s) m a)]\<rparr>"
      by (auto simp: send_def split: option.splits if_splits)
    have "consistent (?s2\<lparr>wsClient := t\<rparr>)"
      using c2 by (rule consistent_client) (simp_all add: t)
    from consistent_register [OF this, of "RpcListener (messageId s) (length (promises s))" "''message''"]
    show ?thesis
      using Inr by (simp add: sendRpc_def new_promise_def nextId_def)
  qed
qed

lemma consistent_waitForEvent: "consistent s \<Longrightarrow> consistent (fst (waitForEvent ty mp s))"
proof -
  assume c: "consistent s"
  have "consistent (s\<lparr>promises := promises s @ [Pending]\<rparr>)"
    using c by (auto simp: consistent_def less_SucI)
  from consistent_register [OF this, of "HandleEvent ty mp (length (promises s))" "''message''"]
  show ?thesis
    by (simp add: waitForEvent_def new_promise_def)
qed

lemma consistent_await:
  "consistent s \<Longrightarrow> target k < length (promises s) \<Longrightarrow> consistent (await p k s)"
  by (simp add: consistent_def await_def)

lemma new_promise_fields [simp]:
  "snd (new_promise s) = length (promises s)"
  "length (promises (fst (new_promise s))) = Suc (length (promises s))"
  by (simp_all add: new_promise_def)

lemma consistent_getState: "consistent s \<Longrightarrow> consistent (fst (getState s))"
  by (simp add: getState_def status_def split_beta Let_def)
     (intro consistent_await consistent_sendRpc consistent_new_promise,
      simp_all add: sendRpc_promises)

lemma getState_promises:
  "snd (getState s) = length (promises s)"
  "length (promises (fst (getState s))) = Suc (Suc (length (promises s)))"
  by (simp_all add: getState_def status_def split_beta Let_def await_def sendRpc_promises)

lemma consistent_start: "consistent s \<Longrightarrow> consistent (fst (start s))"
  by (simp add: start_def split_beta Let_def)
     (intro consistent_await consistent_getState consistent_new_promise,
      simp_all add: getState_promises)

lemma consistent_stop: "consistent s \<Longrightarrow> consistent (fst (stop s))"
  by (simp add: stop_def split_beta Let_def)
     (intro consistent_await consistent_getState consistent_new_promise,
      simp_all add: getState_promises)

lemma consistent_resume: "consistent s \<Longrightarrow> consistent (fst (resume s))"
  by (simp add: resume_def split_beta Let_def)
     (intro consistent_await consistent_getState consistent_new_promise,
      simp_all add: getState_promises)

lemma consistent_run_handler: "consistent s \<Longrightarrow> consistent (run_handler h e s)"
  using run_handler_events [of s h e] by (simp add: consistent_def)

lemma consistent_transition:
  "consistent s \<Longrightarrow> po < length (promises s) \<Longrightarrow> consistent (transition ty mp m po s)"
  by (simp add: transition_def split_beta Let_def)
     (intro consistent_sendRpc consistent_await consistent_waitForEvent,
      simp_all add: waitForEvent_promises)

lemma consistent_run_cont:
  "consistent s \<Longrightarrow> target k < length (promises s) \<Longrightarrow> consistent (run_cont k r s)"
  by (cases "(k, r, s)" rule: run_cont.cases)
     (auto simp: resolve_def reject_def consistent_settle_promise consistent_transition
        split: sum.splits)

lemma consistent_run_jobs: "consistent s \<Longrightarrow> consistent (run_jobs s)"
proof (induction s rule: run_jobs.induct)
  case (1 s)
  show ?case
  proof (cases "take_ready (promises s) (waiting s)")
    case None
    with "1.prems" show ?thesis by (simp add: run_jobs_done)
  next
    case (Some x)
    from take_ready_sound [OF Some] obtain p where
      mem: "(p, fst x) \<in> set (waiting s)" and sub: "set (snd (snd x)) \<subseteq> set (waiting s)"
      by blast
    have "consistent (s\<lparr>waiting := snd (snd x)\<rparr>)"
      using "1.prems" sub by (auto simp: consistent_def)
    moreover have "target (fst x) < length (promises (s\<lparr>waiting := snd (snd x)\<rparr>))"
      using "1.prems" mem by (force simp: consistent_def)
    ultimately have "consistent (run_cont (fst x) (fst (snd x)) (s\<lparr>waiting := snd (snd x)\<rparr>))"
      by (rule consistent_run_cont)
    from "1.IH" [OF Some this] Some show ?thesis
      by (simp add: run_jobs.simps [of s])
  qed
qed

lemma consistent_dispatchEvent:
  "consistent s \<Longrightarrow> consistent (dispatchEvent run_handler wsClient e s)"
proof -
  have "consistent s \<Longrightarrow> consistent (fold (\<lambda>h. run_handler h e) hs s)" for hs
    by (induction hs arbitrary: s) (simp_all add: consistent_run_handler)
  then show "consistent s \<Longrightarrow> consistent (dispatchEvent run_handler wsClient e s)"
    by (simp add: dispatchEvent_def)
qed

lemma consistent_run_callback:
  "consistent s \<Longrightarrow> consistent (run_callback run_handler wsClient wsClient_update e cb s)"
proof (cases cb)
  case (OnOpen c)
  assume c: "consistent s"
  have "consistent (wsClient_update (onOpen c) s)"
    using c by (simp add: consistent_def fresh_fns_def onOpen_def update_call_def clearTimeout_def
        split: option.splits)
  then have "consistent (dispatchEvent run_handler wsClient Open (wsClient_update (onOpen c) s))"
    by (rule consistent_dispatchEvent)
  then show ?thesis
    by (simp add: OnOpen consistent_def fresh_fns_def conn_resolve_def update_call_def)
next
  case (OnError c)
  assume c: "consistent s"
  have "consistent (wsClient_update (onError c) s)"
    using c by (simp add: consistent_def fresh_fns_def onError_def conn_reject_def update_call_def)
  then show ?thesis
    by (simp add: OnError consistent_dispatchEvent)
qed (simp_all add: consistent_dispatchEvent split: sock_event.splits)

lemma consistent_session_event: "consistent s \<Longrightarrow> consistent (session_event i e s)"
proof -
  assume c: "consistent s"
  have up: "consistent (wsClient_update (update_socket i f) s)" for f
    using c by (simp add: consistent_def fresh_fns_def update_socket_def)
  have "consistent s' \<Longrightarrow>
      consistent (fold (run_callback run_handler wsClient wsClient_update e) cbs s')" for cbs s'
    by (induction cbs arbitrary: s') (simp_all add: consistent_run_callback)
  with up c have "consistent (socket_event run_handler wsClient wsClient_update i e s)"
    by (simp add: socket_event_def Let_def)
  then show ?thesis
    by (simp add: session_event_def consistent_run_jobs)
qed

subsection \<open>Messages in sequence\<close>

lemma settle_twice [simp]: "settle r (settle r x) = settle r x"
  by (cases x; cases r) (simp_all add: settle_def)

lemma settle_Pending [simp]: "settle Pending x = x"
  by (cases x) (simp_all add: settle_def)

lemma run_handler_owner:
  "p < length (promises s) \<Longrightarrow>
     promises (run_handler (RpcListener i p) (Message d) s) ! p =
       settle (outcome_of (rpc_verdict i d)) (promises s ! p)"
  by (cases "rpc_verdict i d") (simp_all add: resolve_def reject_def settle_promise_nth)

lemma run_all_owned:
  assumes "\<forall>h \<in> set hs. promise_of h = p \<longrightarrow> h = RpcListener i p"
    and "p < length (promises s)"
  shows "promises (run_all hs (Message d) s) ! p =
    (if RpcListener i p \<in> set hs then settle (outcome_of (rpc_verdict i d)) (promises s ! p)
     else promises s ! p)"
  using assms
proof (induction hs arbitrary: s)
  case Nil
  then show ?case by (simp add: run_all_def)
next
  case (Cons h hs)
  let ?s' = "run_handler h (Message d) s"
  have step: "run_all (h # hs) (Message d) s = run_all hs (Message d) ?s'"
    by (simp add: run_all_def)
  have len: "p < length (promises ?s')"
    using Cons.prems(2) by (simp del: run_handler.simps)
  have rest: "\<forall>h \<in> set hs. promise_of h = p \<longrightarrow> h = RpcListener i p"
    using Cons.prems(1) by simp
  note IH = Cons.IH [OF rest len]
  show ?case
  proof (cases "h = RpcListener i p")
    case True
    then have "promises ?s' ! p = settle (outcome_of (rpc_verdict i d)) (promises s ! p)"
      using Cons.prems(2) by (simp only: run_handler_owner)
    with IH True show ?thesis
      unfolding step by simp
  next
    case False
    with Cons.prems(1) have "promise_of h \<noteq> p" by auto
    then have "promises ?s' ! p = promises s ! p"
      by (rule run_handler_other)
    with IH False show ?thesis
      unfolding step by simp
  qed
qed

lemma receive_listening:
  "listening j (wsClient s) \<Longrightarrow>
     receive j d s = run_jobs (run_all (message_handlers s) (Message d) s)"
  by (simp add: receive_def session_event_def socket_event_listening)

lemma receive_quiet:
  assumes "listening j (wsClient s)" and "q < length (promises s)"
    and "\<forall>h \<in> set (message_handlers s). quiet q (Message d) h"
    and "\<forall>w \<in> set (waiting s). target (snd w) \<noteq> q"
  shows "promises (receive j d s) ! q = promises s ! q"
proof -
  let ?sb = "run_all (message_handlers s) (Message d) s"
  have "promises (run_jobs ?sb) ! q = promises ?sb ! q"
    using assms(2,4) by (intro run_jobs_other) simp_all
  also have "\<dots> = promises s ! q"
    using assms(3) by (rule run_all_quiet)
  finally show ?thesis
    by (simp add: receive_listening [OF assms(1)])
qed

lemma receive_owned:
  assumes "listening j (wsClient s)" and "owned i p s"
  shows "promises (receive j d s) ! p = settle (outcome_of (rpc_verdict i d)) (promises s ! p)"
proof -
  let ?sb = "run_all (message_handlers s) (Message d) s"
  from assms(2) have p: "p < length (promises s)"
    and mem: "RpcListener i p \<in> set (message_handlers s)"
    and only: "\<forall>h \<in> set (message_handlers s). promise_of h = p \<longrightarrow> h = RpcListener i p"
    and wl: "\<forall>w \<in> set (waiting s). target (snd w) \<noteq> p"
    by (simp_all add: owned_def)
  have "promises (run_jobs ?sb) ! p = promises ?sb ! p"
    using p wl by (intro run_jobs_other) simp_all
  also have "\<dots> = settle (outcome_of (rpc_verdict i d)) (promises s ! p)"
    using run_all_owned [OF only p, of d] mem by simp
  finally show ?thesis
    by (simp add: receive_listening [OF assms(1)])
qed

lemma grows_refl [simp]: "grows s s"
  by (simp add: grows_def)

lemma grows_trans: "grows s s' \<Longrightarrow> grows s' s'' \<Longrightarrow> grows s s''"
  unfolding grows_def by (intro conjI; force)

lemma grows_same:
  assumes "length (promises s') = length (promises s)"
    and "socket (wsClient s') = socket (wsClient s)"
    and "sockets (wsClient s') = sockets (wsClient s)"
    and "events (wsClient s') = events (wsClient s)"
  shows "grows s s'"
  using assms by (simp add: grows_def message_handlers_def)

lemma grows_register:
  assumes "fresh_fns (wsClient s)" and "length (promises s) \<le> promise_of h"
    and "length (promises s) \<le> length (promises s')"
    and "socket (wsClient s') = socket (wsClient s)"
    and "sockets (wsClient s') = sockets (wsClient s)"
    and "events (wsClient s') = events (wsClient s)"
    and "next_fn (wsClient s') = next_fn (wsClient s)"
  shows "grows s (s'\<lparr>wsClient := on ev h (wsClient s')\<rparr>)"
proof -
  have "fresh_fns (wsClient s')"
    using assms(1,6,7) by (simp add: fresh_fns_def)
  from on_events [OF this, of ev h] assms show ?thesis
    by (auto simp: grows_def message_handlers_def listeners_for_def)
qed

lemma grows_sendRpc: "consistent s \<Longrightarrow> grows s (fst (sendRpc m a s))"
proof -
  assume c: "consistent s"
  then have fresh: "fresh_fns (wsClient s)"
    by (simp add: consistent_def)
  let ?s2 = "s\<lparr>promises := promises s @ [Pending], messageId := messageId s + 1\<rparr>"
  show ?thesis
  proof (cases "send (request (messageId s) m a) (wsClient s)")
    case (Inl e)
    have "grows s (settle_promise (length (promises s)) (Rejected e) ?s2)"
      by (simp add: grows_def message_handlers_def)
    then show ?thesis
      using Inl by (simp add: sendRpc_def new_promise_def nextId_def reject_def)
  next
    case (Inr t)
    then have t: "t = (wsClient s)\<lparr>trace := trace (wsClient s) @
        [SocketSend (the (socket (wsClient s))) (request (messageId s) m a)]\<rparr>"
      by (auto simp: send_def split: option.splits if_splits)
    have "grows s ((?s2\<lparr>wsClient := t\<rparr>)\<lparr>wsClient := on ''message''
          (RpcListener (messageId s) (length (promises s))) (wsClient (?s2\<lparr>wsClient := t\<rparr>))\<rparr>)"
      by (rule grows_register) (simp_all add: t fresh)
    then show ?thesis
      using Inr by (simp add: sendRpc_def new_promise_def nextId_def)
  qed
qed

lemma grows_waitForEvent: "consistent s \<Longrightarrow> grows s (fst (waitForEvent ty mp s))"
proof -
  assume c: "consistent s"
  then have fresh: "fresh_fns (wsClient s)"
    by (simp add: consistent_def)
  let ?s1 = "s\<lparr>promises := promises s @ [Pending]\<rparr>"
  have "grows s (?s1\<lparr>wsClient := on ''message'' (HandleEvent ty mp (length (promises s)))
      (wsClient ?s1)\<rparr>)"
    by (rule grows_register) (simp_all add: fresh)
  then show ?thesis
    by (simp add: waitForEvent_def new_promise_def)
qed

lemma grows_await: "grows s (await p k s)"
  by (simp add: grows_def await_def message_handlers_def)

lemma grows_settle_promise: "grows s (settle_promise p r s)"
  by (rule grows_same) simp_all

lemma grows_transition:
  assumes "consistent s" and "po < length (promises s)"
  shows "grows s (transition ty mp m po s)"
proof -
  let ?s1 = "fst (waitForEvent ty mp s)"
  let ?s2 = "await (snd (waitForEvent ty mp s)) (ThenSettle po) ?s1"
  have c1: "consistent ?s1"
    using assms(1) by (rule consistent_waitForEvent)
  have c2: "consistent ?s2"
    using c1 assms(2) by (intro consistent_await) (simp_all add: waitForEvent_promises)
  have g1: "grows s ?s1"
    using assms(1) by (rule grows_waitForEvent)
  have g2: "grows ?s1 ?s2"
    by (rule grows_await)
  have g3: "grows ?s2 (fst (sendRpc m (JObj [(''callsign'', JStr (callsign ?s2))]) ?s2))"
    using c2 by (rule grows_sendRpc)
  from grows_trans [OF grows_trans [OF g1 g2] g3] show ?thesis
    by (simp add: transition_def split_beta Let_def)
qed

lemma grows_run_cont:
  "consistent s \<Longrightarrow> target k < length (promises s) \<Longrightarrow> grows s (run_cont k r s)"
  by (cases "(k, r, s)" rule: run_cont.cases)
     (auto simp: resolve_def reject_def grows_settle_promise grows_transition split: sum.splits)

lemma grows_waiting [simp]: "grows s (s'\<lparr>waiting := wl\<rparr>) = grows s s'"
  by (simp add: grows_def message_handlers_def)

lemma grows_run_jobs: "consistent s \<Longrightarrow> grows s (run_jobs s)"
proof (induction s rule: run_jobs.induct)
  case (1 s)
  show ?case
  proof (cases "take_ready (promises s) (waiting s)")
    case None
    then show ?thesis by (simp add: run_jobs_done)
  next
    case (Some x)
    let ?s0 = "s\<lparr>waiting := snd (snd x)\<rparr>"
    let ?s' = "run_cont (fst x) (fst (snd x)) ?s0"
    from take_ready_sound [OF Some] obtain p where
      mem: "(p, fst x) \<in> set (waiting s)" and sub: "set (snd (snd x)) \<subseteq> set (waiting s)"
      by blast
    have c0: "consistent ?s0"
      using "1.prems" sub by (auto simp: consistent_def)
    have t0: "target (fst x) < length (promises ?s0)"
      using "1.prems" mem by (force simp: consistent_def)
    have c': "consistent ?s'"
      using c0 t0 by (rule consistent_run_cont)
    have "grows ?s0 ?s'"
      using c0 t0 by (rule grows_run_cont)
    then have "grows s ?s'"
      by (simp add: grows_def message_handlers_def)
    from grows_trans [OF this "1.IH" [OF Some c']] Some show ?thesis
      by (simp add: run_jobs.simps [of s])
  qed
qed

lemma run_jobs_targets:
  "\<forall>w \<in> set (waiting s). target (snd w) \<noteq> q \<Longrightarrow>
     \<forall>w \<in> set (waiting (run_jobs s)). target (snd w) \<noteq> q"
proof (induction s rule: run_jobs.induct)
  case (1 s)
  show ?case
  proof (cases "take_ready (promises s) (waiting s)")
    case None
    with "1.prems" show ?thesis by (simp add: run_jobs_done)
  next
    case (Some x)
    let ?s' = "run_cont (fst x) (fst (snd x)) (s\<lparr>waiting := snd (snd x)\<rparr>)"
    from take_ready_sound [OF Some] obtain p where
      mem: "(p, fst x) \<in> set (waiting s)" and sub: "set (snd (snd x)) \<subseteq> set (waiting s)"
      by blast
    from mem "1.prems" have tgt: "target (fst x) \<noteq> q" by force
    have "\<forall>w \<in> set (waiting ?s'). target (snd w) \<noteq> q"
    proof
      fix w assume "w \<in> set (waiting ?s')"
      from run_cont_targets [OF this] sub "1.prems" tgt
      show "target (snd w) \<noteq> q" by auto
    qed
    from "1.IH" [OF Some this] Some show ?thesis
      by (simp add: run_jobs.simps [of s])
  qed
qed

lemma grows_run_all: "consistent s \<Longrightarrow> grows s (run_all hs e s)"
proof -
  assume "consistent s"
  then have "fresh_fns (wsClient s)"
    by (simp add: consistent_def)
  from run_all_events [OF this, of hs e] show ?thesis
    by (intro grows_same) simp_all
qed

lemma consistent_run_all: "consistent s \<Longrightarrow> consistent (run_all hs e s)"
  by (induction hs arbitrary: s) (simp_all add: run_all_def consistent_run_handler)

lemma grows_receive:
  assumes "listening j (wsClient s)" and "consistent s"
  shows "grows s (receive j d s)"
  unfolding receive_listening [OF assms(1)]
  using grows_run_all [OF assms(2)] grows_run_jobs [OF consistent_run_all [OF assms(2)]]
  by (rule grows_trans)

lemma grows_listening: "grows s s' \<Longrightarrow> listening j (wsClient s') = listening j (wsClient s)"
  by (simp add: grows_def listening_def)

lemma owned_receive:
  assumes "listening j (wsClient s)" and "consistent s" and "owned i p s"
  shows "owned i p (receive j d s)"
proof -
  let ?sb = "run_all (message_handlers s) (Message d) s"
  from assms(3) have p: "p < length (promises s)"
    and mem: "RpcListener i p \<in> set (message_handlers s)"
    and only: "\<forall>h \<in> set (message_handlers s). promise_of h = p \<longrightarrow> h = RpcListener i p"
    and wl: "\<forall>w \<in> set (waiting s). target (snd w) \<noteq> p"
    by (simp_all add: owned_def)
  from grows_receive [OF assms(1,2), of d]
  have len: "length (promises s) \<le> length (promises (receive j d s))"
    and sub: "set (message_handlers s) \<subseteq> set (message_handlers (receive j d s))"
    and new: "\<forall>h \<in> set (message_handlers (receive j d s)).
        h \<in> set (message_handlers s) \<or> length (promises s) \<le> promise_of h"
    by (simp_all add: grows_def)
  have "\<forall>w \<in> set (waiting ?sb). target (snd w) \<noteq> p"
    using wl by simp
  then have "\<forall>w \<in> set (waiting (run_jobs ?sb)). target (snd w) \<noteq> p"
    by (rule run_jobs_targets)
  then have 4: "\<forall>w \<in> set (waiting (receive j d s)). target (snd w) \<noteq> p"
    by (simp add: receive_listening [OF assms(1)])
  have 1: "p < length (promises (receive j d s))"
    using p len by simp
  have 2: "RpcListener i p \<in> set (message_handlers (receive j d s))"
    using mem sub by blast
  have 3: "\<forall>h \<in> set (message_handlers (receive j d s)).
      promise_of h = p \<longrightarrow> h = RpcListener i p"
  proof (intro ballI impI)
    fix h assume h: "h \<in> set (message_handlers (receive j d s))" and hp: "promise_of h = p"
    from hp p have "\<not> length (promises s) \<le> promise_of h"
      by simp
    with new h have "h \<in> set (message_handlers s)"
      by blast
    with only hp show "h = RpcListener i p"
      by blast
  qed
  from 1 2 3 4 show ?thesis
    unfolding owned_def by blast
qed

lemma receive_all_invariant:
  "listening j (wsClient s) \<Longrightarrow> consistent s \<Longrightarrow> owned i p s \<Longrightarrow>
     listening j (wsClient (fold (receive j) ds s)) \<and> consistent (fold (receive j) ds s) \<and>
     owned i p (fold (receive j) ds s)"
proof (induction ds arbitrary: s)
  case Nil
  then show ?case by simp
next
  case (Cons d ds)
  have "listening j (wsClient (receive j d s))"
    using grows_listening [OF grows_receive [OF Cons.prems(1,2)]] Cons.prems(1) by simp
  moreover have "consistent (receive j d s)"
    using Cons.prems(2) by (simp add: receive_def consistent_session_event)
  moreover have "owned i p (receive j d s)"
    using Cons.prems by (rule owned_receive)
  ultimately show ?case
    using Cons.IH by simp
qed

lemma owned_sendRpc:
  assumes "listening j (wsClient s)" and "consistent s"
  shows "owned (messageId s) (length (promises s)) (fst (sendRpc m a s))"
proof -
  from assms(2) have fresh: "fresh_fns (wsClient s)"
    and old: "\<forall>h \<in> set (message_handlers s). promise_of h < length (promises s)"
    and wl: "\<forall>w \<in> set (waiting s). target (snd w) < length (promises s)"
    by (auto simp: consistent_def message_handlers_def listeners_for_def)
  show ?thesis
    using old wl
    by (auto simp: owned_def message_handlers_sendRpc [OF assms(1) fresh] sendRpc_promises)
qed

lemma settle_settled: "x \<noteq> Pending \<Longrightarrow> settle r x = x"
  by (cases x) (simp_all add: settle_def)

lemma settle_pending: "settle r Pending = r"
  by (simp add: settle_def)

subsection \<open>The future of \<^verbatim>\<open>sendRpc\<close>\<close>

text \<open>
  C1, as stated, fails: the reply to an activate request carries \<^verbatim>\<open>"result": null\<close>, and
  the future resolves with the whole response, not with its \<^verbatim>\<open>result\<close> field.
\<close>

theorem sendRpc_result_counterexample:
  "get activate_reply ''id'' = Inr (JNum (messageId session0)) \<and>
   get activate_reply ''result'' = Inr JNull \<and>
   promises (receive 0 (Json activate_reply)
     (fst (sendRpc ''Controller.1.activate'' (JObj [(''callsign'', JStr ''UX'')]) session0))) !
     snd (sendRpc ''Controller.1.activate'' (JObj [(''callsign'', JStr ''UX'')]) session0)
   = Resolved activate_reply \<and>
   activate_reply \<noteq> JNull"
  by (simp add: receive_after_sendRpc [OF session0_ready] sendRpc_promises rpc_verdict_cases)
     (simp add: session_defs)

text \<open>
  C1, amended. After \<^verbatim>\<open>sendRpc\<close> on an open socket the future is pending. Whatever
  messages \<open>ds\<close> arrive first: a settled future never changes, and a future that is still
  pending is resolved by the next message \<open>d\<close> exactly when \<open>d\<close> parses to a value whose
  \<^verbatim>\<open>id\<close> is the identifier of the call; it then holds the \<^verbatim>\<open>result\<close> field when that
  is truthy and the whole response otherwise. A message that does not parse, or parses to
  \<^verbatim>\<open>null\<close>, rejects a pending future. A response with this identifier leaves every
  future alone that only listeners of other identifiers settle.
\<close>

theorem sendRpc_settled_by_its_response:
  assumes "listening j (wsClient s)" and "consistent s"
  shows "let (s1, p) = sendRpc m args s; i = messageId s;
             s2 = fold (receive j) ds s1; s3 = receive j d s2 in
    promises s1 ! p = Pending \<and>
    (promises s2 ! p \<noteq> Pending \<longrightarrow> promises s3 ! p = promises s2 ! p) \<and>
    (promises s2 ! p = Pending \<longrightarrow>
       ((\<exists>v. promises s3 ! p = Resolved v) \<longleftrightarrow>
          (\<exists>r. d = Json r \<and> get r ''id'' = Inr (JNum i))) \<and>
       (\<forall>r x. d = Json r \<and> get r ''id'' = Inr (JNum i) \<and> get r ''result'' = Inr x \<longrightarrow>
          promises s3 ! p = Resolved (if truthy x then x else r)) \<and>
       (\<forall>e. promises s3 ! p = Rejected e \<longleftrightarrow>
          d = Malformed \<and> e = SyntaxError \<or>
          (d = Json JNull \<or> d = Json JUndefined) \<and> e = TypeError)) \<and>
    (\<forall>r q. d = Json r \<and> get r ''id'' = Inr (JNum i) \<and> q < length (promises s2) \<and>
       (\<forall>h \<in> set (message_handlers s2). promise_of h = q \<longrightarrow> (\<exists>k. h = RpcListener k q \<and> k \<noteq> i)) \<and>
       (\<forall>w \<in> set (waiting s2). target (snd w) \<noteq> q) \<longrightarrow>
       promises s3 ! q = promises s2 ! q)"
proof -
  let ?s1 = "fst (sendRpc m args s)"
  let ?p = "length (promises s)"
  let ?i = "messageId s"
  let ?s2 = "fold (receive j) ds ?s1"
  let ?s3 = "receive j d ?s2"
  have p: "snd (sendRpc m args s) = ?p"
    by (simp add: sendRpc_promises)
  have pending: "promises ?s1 ! ?p = Pending"
    using assms(1) by (simp add: sendRpc_listening)
  have "listening j (wsClient ?s1)"
    using assms(1) by (simp add: sendRpc_listening)
  moreover have "consistent ?s1"
    using assms(2) by (rule consistent_sendRpc)
  moreover have "owned ?i ?p ?s1"
    using assms by (rule owned_sendRpc)
  ultimately have inv: "listening j (wsClient ?s2)" "owned ?i ?p ?s2"
    using receive_all_invariant [of j ?s1 ?i ?p ds] by simp_all
  note step = receive_owned [OF inv, of d]
  have settled: "promises ?s2 ! ?p \<noteq> Pending \<longrightarrow> promises ?s3 ! ?p = promises ?s2 ! ?p"
    by (simp add: step settle_settled)
  have resolved: "promises ?s2 ! ?p = Pending \<longrightarrow>
      ((\<exists>v. promises ?s3 ! ?p = Resolved v) \<longleftrightarrow>
       (\<exists>r. d = Json r \<and> get r ''id'' = Inr (JNum ?i)))"
    unfolding step rpc_verdict_cases
    by (cases d) (auto simp: get_fails settle_pending)
  have val: "promises ?s2 ! ?p = Pending \<longrightarrow>
      (\<forall>r x. d = Json r \<and> get r ''id'' = Inr (JNum ?i) \<and> get r ''result'' = Inr x \<longrightarrow>
         promises ?s3 ! ?p = Resolved (if truthy x then x else r))"
    unfolding step rpc_verdict_cases
    by (cases d) (auto simp: get_fails settle_pending)
  have rejected: "promises ?s2 ! ?p = Pending \<longrightarrow>
      (\<forall>e. promises ?s3 ! ?p = Rejected e \<longleftrightarrow>
         d = Malformed \<and> e = SyntaxError \<or>
         (d = Json JNull \<or> d = Json JUndefined) \<and> e = TypeError)"
    unfolding step rpc_verdict_cases
    by (cases d) (auto simp: settle_pending)
  have others: "\<forall>r q. d = Json r \<and> get r ''id'' = Inr (JNum ?i) \<and> q < length (promises ?s2) \<and>
       (\<forall>h \<in> set (message_handlers ?s2). promise_of h = q \<longrightarrow> (\<exists>k. h = RpcListener k q \<and> k \<noteq> ?i)) \<and>
       (\<forall>w \<in> set (waiting ?s2). target (snd w) \<noteq> q) \<longrightarrow>
       promises ?s3 ! q = promises ?s2 ! q"
  proof (intro allI impI, elim conjE)
    fix r q
    assume d: "d = Json r" and id: "get r ''id'' = Inr (JNum ?i)"
      and q: "q < length (promises ?s2)"
      and hs: "\<forall>h \<in> set (message_handlers ?s2). promise_of h = q \<longrightarrow>
        (\<exists>k. h = RpcListener k q \<and> k \<noteq> ?i)"
      and wl: "\<forall>w \<in> set (waiting ?s2). target (snd w) \<noteq> q"
    have "\<forall>h \<in> set (message_handlers ?s2). quiet q (Message d) h"
    proof
      fix h assume "h \<in> set (message_handlers ?s2)"
      with hs have "promise_of h = q \<longrightarrow> (\<exists>k. h = RpcListener k q \<and> k \<noteq> ?i)" by blast
      then show "quiet q (Message d) h"
        using d id by (cases h) (auto simp: quiet_def rpc_verdict_cases get_fails)
    qed
    from receive_quiet [OF inv(1) q this wl]
    show "promises ?s3 ! q = promises ?s2 ! q" .
  qed
  from pending settled resolved val rejected others show ?thesis
    unfolding Let_def split_beta p by blast
qed

theorem sendRpc_settled_by_its_response_witness:
  "listening 0 (wsClient session0) \<and> consistent session0 \<and>
   promises asked ! 0 = Pending \<and>
   promises (receive 0 (Json activated_note) asked) ! 0 = Pending \<and>
   promises (receive 0 (Json (status_reply ''Deactivated''))
      (receive 0 (Json activated_note) asked)) ! 0 =
     Resolved (JArr [JObj [(''callsign'', JStr ''UX''), (''state'', JStr ''Deactivated'')]]) \<and>
   promises (receive 0 Malformed (receive 0 (Json (status_reply ''Deactivated''))
      (receive 0 (Json activated_note) asked))) ! 0 =
     Resolved (JArr [JObj [(''callsign'', JStr ''UX''), (''state'', JStr ''Deactivated'')]]) \<and>
   promises (receive 0 Malformed asked) ! 0 = Rejected SyntaxError \<and>
   listening 0 (wsClient asked) \<and> consistent asked \<and>
   promises (receive 0 (Json (JObj [(''id'', JNum 2), (''result'', JNull)]))
     (fst (sendRpc ''Controller.1.activate'' (JObj [(''callsign'', JStr ''UX'')]) asked))) ! 0 =
     Pending"
proof -
  let ?result = "JArr [JObj [(''callsign'', JStr ''UX''), (''state'', JStr ''Deactivated'')]]"
  let ?reply = "Json (status_reply ''Deactivated'')"
  let ?note = "Json activated_note"
  have b: "snd (sendRpc ''Controller.1.status'' (JObj []) session0) = 0" "messageId session0 = 1"
    by (simp_all add: sendRpc_promises) (simp_all add: session_defs)
  note inst = sendRpc_settled_by_its_response [OF session0_ready, of "''Controller.1.status''"
      "JObj []", unfolded Let_def split_beta b, folded asked_def]
  have 0: "promises asked ! 0 = Pending"
    using inst [of "[]" Malformed] by simp
  have 1: "promises (receive 0 ?note asked) ! 0 = Pending"
  proof (cases "promises (receive 0 ?note asked) ! 0")
    case (Resolved v)
    with inst [of "[]" ?note] 0 show ?thesis
      by (simp add: activated_note_def)
  next
    case (Rejected e)
    with inst [of "[]" ?note] 0 show ?thesis
      by (simp add: activated_note_def)
  qed
  have 2: "promises (receive 0 ?reply (receive 0 ?note asked)) ! 0 = Resolved ?result"
    using inst [of "[?note]" ?reply] 1 by (simp add: status_reply_def)
  have 3: "promises (receive 0 Malformed (receive 0 ?reply (receive 0 ?note asked))) ! 0 =
      Resolved ?result"
    using inst [of "[?note, ?reply]" Malformed] 2 by simp
  have 4: "promises (receive 0 Malformed asked) ! 0 = Rejected SyntaxError"
    using inst [of "[]" Malformed] 0 by simp
  have a: "promises asked ! 0 = Pending" "messageId asked = 2" "length (promises asked) = 1"
    "message_handlers asked = [RpcListener 1 0]" "waiting asked = []"
    "snd (sendRpc ''Controller.1.activate'' (JObj [(''callsign'', JStr ''UX'')]) asked) = 1"
    by (simp_all add: asked_def sendRpc_listening [OF session0_ready(1)] sendRpc_promises)
       (simp_all add: session_defs scenario_defs)
  have fresh: "fresh_fns (wsClient asked)"
    using asked_ready(2) by (simp add: consistent_def)
  have c: "length (promises (fst (sendRpc ''Controller.1.activate''
        (JObj [(''callsign'', JStr ''UX'')]) asked))) = 2"
    "message_handlers (fst (sendRpc ''Controller.1.activate''
        (JObj [(''callsign'', JStr ''UX'')]) asked)) = [RpcListener 1 0, RpcListener 2 1]"
    "waiting (fst (sendRpc ''Controller.1.activate''
        (JObj [(''callsign'', JStr ''UX'')]) asked)) = []"
    using a by (simp_all add: sendRpc_promises message_handlers_sendRpc [OF asked_ready(1) fresh])
  have 5: "promises (receive 0 (Json (JObj [(''id'', JNum 2), (''result'', JNull)]))
     (fst (sendRpc ''Controller.1.activate'' (JObj [(''callsign'', JStr ''UX'')]) asked))) ! 0 =
     Pending"
    using sendRpc_settled_by_its_response [OF asked_ready, of "''Controller.1.activate''"
      "JObj [(''callsign'', JStr ''UX'')]" "[]" "Json (JObj [(''id'', JNum 2), (''result'', JNull)])"]
      a c
    by (simp add: split_beta Let_def sendRpc_promises)
  from 0 1 2 3 4 5 session0_ready asked_ready show ?thesis
    by simp
qed

section \<open>Properties of the debug feed\<close>

text \<open>
  C8: \<^verbatim>\<open>connect()\<close> sends nothing; when the socket opens, the client has sent exactly
  \<open>Inspector.enable\<close> (1), \<open>Console.enable\<close> (22) and \<open>Inspector.initialized\<close> (23), in this
  order, and then the promise of the transport's \<^verbatim>\<open>connect\<close> is resolved.
\<close>

theorem enablement_in_order:
  "map_option trace (ws (wi_connect s)) = Some [] \<and>
   map_option trace (ws (wi_socket_event 0 Open (wi_connect s))) =
     Some [SocketSend 0 (JObj [(''id'', JNum 1), (''method'', JStr ''Inspector.enable'')]),
           SocketSend 0 (JObj [(''id'', JNum 22), (''method'', JStr ''Console.enable'')]),
           SocketSend 0 (JObj [(''id'', JNum 23), (''method'', JStr ''Inspector.initialized'')]),
           ConnResolve 0]"
  by (simp add: wi_connect_def wi_disconnect_def wi_socket_event_def socket_event_def
        wi_client_def wi_update_def connect_def createWebSocketClient_def on_def addEventListener_def listeners_for_def
        update_socket_def update_call_def dispatchEvent_def onOpen_def conn_resolve_def
        clearTimeout_def settle_def default_timeout_def Let_def enablement_def send_def)

end
